theory Spec2Isabelle
  imports
    Complex_Main
    "HOL-Library.AList"
    "HOL-Library.Char_ord"
    "HOL-Library.List_Lexorder"
    "HOL-Library.Product_Lexorder"
    "HOL-Library.Sublist"
begin

section \<open>The prefix index of \<^verbatim>\<open>src/trie.py\<close>\<close>

subsection \<open>Data model\<close>

text \<open>
  \<^verbatim>\<open>class TrieNode\<close> has the slots \<^verbatim>\<open>children\<close> (a dict from one symbol to the
  child node), \<^verbatim>\<open>is_word\<close> and \<^verbatim>\<open>freq\<close>. A Python dict iterates in insertion
  order, and \<^verbatim>\<open>Trie.items\<close> observes that order, so the dict is an association
  list kept in insertion order: \<^verbatim>\<open>d[k] = v\<close> is \<^const>\<open>AList.update\<close> (overwrite in
  place, or append a new key at the end), \<^verbatim>\<open>del d[k]\<close> is \<^const>\<open>AList.delete\<close>,
  \<^verbatim>\<open>k in d\<close> and \<^verbatim>\<open>d[k]\<close> are \<^const>\<open>map_of\<close>.

  Every node is owned by exactly one parent, so the object graph is a tree and a
  node is the value of its subtree. A weight is a finite float; the program only
  stores, compares and negates weights, which is exact on finite floats, so a
  weight is a \<^typ>\<open>real\<close>. A word is a list of symbols; the symbols are ordered as
  Python orders the characters of a \<^verbatim>\<open>str\<close>.
\<close>

datatype 'a node =
  Node (children: "('a \<times> 'a node) list") (is_word: bool) (freq: real)

text \<open>\<^verbatim>\<open>TrieNode()\<close>: no children, not a word, weight \<^verbatim>\<open>0.0\<close>.\<close>

definition TrieNode :: "'a node" where
  "TrieNode = Node [] False 0"

record 'a trie =
  root :: "'a node"
  total_words :: int
  total_nodes :: int

text \<open>\<^verbatim>\<open>Trie.__init__\<close>: a fresh root, no words, one node (the root).\<close>

definition Trie :: "'a trie" where
  "Trie = \<lparr>root = TrieNode, total_words = 0, total_nodes = 1\<rparr>"

subsection \<open>Traversal: \<^verbatim>\<open>_trace\<close> and \<^verbatim>\<open>contains\<close>\<close>

text \<open>
  \<^verbatim>\<open>_trace(text)\<close> walks from the root and records the path as pairs of a node
  and the symbol that led into it; the root's entry carries the empty string
  \<^verbatim>\<open>''\<close>, which is no symbol, hence \<^const>\<open>None\<close>. The Python result
  \<^verbatim>\<open>(None, [])\<close> for a missing path is \<^const>\<open>None\<close> here.
\<close>

fun trace_from ::
  "'a list \<Rightarrow> 'a node \<Rightarrow> ('a node \<times> 'a option) list
     \<Rightarrow> ('a node \<times> ('a node \<times> 'a option) list) option" where
  "trace_from [] nd path = Some (nd, path)"
| "trace_from (ch # text) nd path =
     (case map_of (children nd) ch of
        None \<Rightarrow> None
      | Some nxt \<Rightarrow> trace_from text nxt (path @ [(nxt, Some ch)]))"

definition trace ::
  "'a trie \<Rightarrow> 'a list \<Rightarrow> ('a node \<times> ('a node \<times> 'a option) list) option" where
  "trace t text = trace_from text (root t) [(root t, None)]"

definition contains :: "'a trie \<Rightarrow> 'a list \<Rightarrow> bool" where
  "contains t word =
     (case trace t word of None \<Rightarrow> False | Some (nd, _) \<Rightarrow> is_word nd)"

subsection \<open>\<^verbatim>\<open>insert\<close>\<close>

text \<open>
  (\<^verbatim>\<open>Trie.insert\<close> is \<open>insert_word\<close> here; \<open>insert\<close> is HOL's set insertion.)
  The loop of \<^verbatim>\<open>insert\<close> moves a node pointer down the word, creating the
  missing children, and then marks the node it stops at. The tree value is
  rebuilt along the same path; the two counters are threaded through, so each
  \<^verbatim>\<open>+= 1\<close> of the source is one increment here.
\<close>

fun insert_from ::
  "'a list \<Rightarrow> real \<Rightarrow> 'a node \<Rightarrow> int \<Rightarrow> int \<Rightarrow> 'a node \<times> int \<times> int" where
  "insert_from [] fr nd tw tn =
     (Node (children nd) True fr, (if is_word nd then tw else tw + 1), tn)"
| "insert_from (ch # word) fr nd tw tn =
     (case map_of (children nd) ch of
        None \<Rightarrow>
          (case insert_from word fr TrieNode tw (tn + 1) of
             (c, tw', tn') \<Rightarrow>
               (Node (AList.update ch c (children nd)) (is_word nd) (freq nd), tw', tn'))
      | Some nxt \<Rightarrow>
          (case insert_from word fr nxt tw tn of
             (c, tw', tn') \<Rightarrow>
               (Node (AList.update ch c (children nd)) (is_word nd) (freq nd), tw', tn')))"

definition insert_word :: "'a trie \<Rightarrow> 'a list \<Rightarrow> real \<Rightarrow> 'a trie" where
  "insert_word t word fr =
     (case insert_from word fr (root t) (total_words t) (total_nodes t) of
        (r, tw, tn) \<Rightarrow> \<lparr>root = r, total_words = tw, total_nodes = tn\<rparr>)"

subsection \<open>\<^verbatim>\<open>remove\<close>\<close>

text \<open>\<^verbatim>\<open>ch in parent.children\<close>, where \<^verbatim>\<open>ch\<close> may be the root's \<^verbatim>\<open>''\<close>.\<close>

definition has_key :: "'a option \<Rightarrow> 'a node \<Rightarrow> bool" where
  "has_key ch nd =
     (case ch of None \<Rightarrow> False | Some c \<Rightarrow> map_of (children nd) c \<noteq> None)"

text \<open>\<^verbatim>\<open>del parent.children[ch]\<close>, reached only when \<^verbatim>\<open>ch\<close> is a key.\<close>

definition del_key :: "'a option \<Rightarrow> 'a node \<Rightarrow> 'a node" where
  "del_key ch nd =
     (case ch of
        None \<Rightarrow> nd
      | Some c \<Rightarrow> Node (AList.delete c (children nd)) (is_word nd) (freq nd))"

text \<open>
  The nodes on the recorded path are shared objects: what the source does to
  \<^verbatim>\<open>path[i]\<close> is seen by \<^verbatim>\<open>path[i - 1]\<close> through its \<^verbatim>\<open>children\<close>. On tree
  values this sharing is the write-back \<open>put_child\<close>: the parent's entry for the
  child's incoming symbol takes the child's current value.
\<close>

definition put_child :: "'a option \<Rightarrow> 'a node \<Rightarrow> 'a node \<Rightarrow> 'a node" where
  "put_child chc child parent =
     (case chc of
        None \<Rightarrow> parent
      | Some c \<Rightarrow>
          Node (AList.update c child (children parent)) (is_word parent) (freq parent))"

text \<open>
  The pruning loop \<^verbatim>\<open>for i in range(len(path) - 1, 0, -1)\<close>. The first argument
  is \<^verbatim>\<open>path[i - 1], path[i - 2], ..., path[0]\<close>; \<open>child\<close> is the current value of
  the node \<^verbatim>\<open>path[i][0]\<close> and \<open>chc\<close> its incoming symbol \<^verbatim>\<open>path[i][1]\<close>. As in
  the source, the symbol \<^verbatim>\<open>ch\<close> that is tested and deleted is the one unpacked
  from \<^verbatim>\<open>path[i - 1]\<close>, that is the parent's own incoming symbol. The flag
  \<open>looping\<close> is false once the source has executed \<^verbatim>\<open>break\<close>; the remaining
  entries are then only written back.
\<close>

fun prune ::
  "('a node \<times> 'a option) list \<Rightarrow> 'a node \<Rightarrow> 'a option \<Rightarrow> bool \<Rightarrow> int
     \<Rightarrow> 'a node \<times> int" where
  "prune [] child chc looping tn = (child, tn)"
| "prune ((parent, ch) # up) child chc looping tn =
     (let parent' = put_child chc child parent in
      if looping \<and> children child = [] \<and> \<not> is_word child then
        (if has_key ch parent'
         then prune up (del_key ch parent') ch True (tn - 1)
         else prune up parent' ch True tn)
      else prune up parent' ch False tn)"

definition remove :: "'a trie \<Rightarrow> 'a list \<Rightarrow> bool \<times> 'a trie" where
  "remove t word =
     (case trace t word of
        None \<Rightarrow> (False, t)
      | Some (nd, path) \<Rightarrow>
          if \<not> is_word nd then (False, t)
          else
            (case prune (rev (butlast path)) (Node (children nd) False 0)
                    (snd (last path)) True (total_nodes t) of
               (r, tn) \<Rightarrow>
                 (True, \<lparr>root = r, total_words = total_words t - 1, total_nodes = tn\<rparr>)))"

subsection \<open>\<^verbatim>\<open>complete\<close>\<close>

text \<open>
  \<^verbatim>\<open>heapq\<close> is Python's standard library, not code of this repository. It is
  modelled by its contract: a heap is a container of items whose smallest item
  is \<^verbatim>\<open>heap[0]\<close>. The container is an ascending list, so \<^verbatim>\<open>heap[0]\<close> is the
  head. \<^verbatim>\<open>heappush\<close> adds the item. \<^verbatim>\<open>heappushpop(heap, item)\<close> replaces the
  smallest item by \<^verbatim>\<open>item\<close> when the heap is not empty and
  \<^verbatim>\<open>heap[0] < item\<close>, and leaves the heap as it is otherwise (on an empty heap
  too); the source discards the item it returns. Items are the tuples
  \<^verbatim>\<open>(freq, word)\<close>, compared as Python compares tuples: lexicographically.
\<close>

type_synonym 'a item = "real \<times> 'a list"

definition heappush :: "'a::linorder item list \<Rightarrow> 'a item \<Rightarrow> 'a item list" where
  "heappush heap item = insort item heap"

definition heappushpop :: "'a::linorder item list \<Rightarrow> 'a item \<Rightarrow> 'a item list" where
  "heappushpop heap item =
     (if heap \<noteq> [] \<and> hd heap < item then insort item (tl heap) else heap)"

text \<open>
  The nested \<^verbatim>\<open>dfs(cur_node, built)\<close>, with the heap it mutates passed in and
  returned; \<^verbatim>\<open>cur_node\<close> is matched as \<open>Node cs w fr\<close>, its \<^verbatim>\<open>children\<close>,
  \<^verbatim>\<open>is_word\<close> and \<^verbatim>\<open>freq\<close>. \<^verbatim>\<open>for ch in sorted(cur_node.children.keys())\<close> visits the children
  by ascending symbol; the keys of a dict are distinct, so that is the
  association list sorted by key.
\<close>

function dfs :: "int \<Rightarrow> 'a::linorder node \<Rightarrow> 'a list \<Rightarrow> 'a item list \<Rightarrow> 'a item list" where
  "dfs k (Node cs w fr) built heap =
     fold (\<lambda>p h. dfs k (snd p) (built @ [fst p]) h)
       (sort_key fst cs)
       (if w then
          (if int (length heap) < k
           then heappush heap (fr, built)
           else heappushpop heap (fr, built))
        else heap)"
  by pat_completeness auto
termination
proof (relation "measure (\<lambda>(k, nd, built, heap). size nd)", goal_cases)
  case 1
  show ?case by simp
next
  case 2
  have aux: "size (snd p) < Suc (size_list (\<lambda>x. Suc (size (snd x))) cs)"
    if "p \<in> set cs" for p :: "'a \<times> 'a node" and cs
    using that by (induction cs) auto
  from 2 show ?case by (simp add: aux size_prod_simp)
qed

text \<open>
  \<^verbatim>\<open>sorted(heap, key=lambda x: (-x[0], x[1]))\<close> is a stable sort by the key;
  the words are then projected out. The words in the heap are pairwise
  different (each is the path of one node), so are the keys, and the sorted
  result does not depend on the order in which the heap lists its items.
\<close>

definition complete :: "'a::linorder trie \<Rightarrow> 'a list \<Rightarrow> int \<Rightarrow> 'a list list" where
  "complete t pfx k =
     (case trace t pfx of
        None \<Rightarrow> []
      | Some (nd, _) \<Rightarrow>
          map snd (sort_key (\<lambda>x. (- fst x, snd x)) (dfs k nd pfx [])))"

subsection \<open>\<^verbatim>\<open>stats\<close> and \<^verbatim>\<open>items\<close>\<close>

text \<open>
  The nested \<^verbatim>\<open>height(node)\<close>: \<^verbatim>\<open>0\<close> without children, else one more than the
  largest height of a child.
\<close>

function height :: "'a node \<Rightarrow> nat" where
  "height (Node cs w fr) =
     (if cs = [] then 0 else 1 + Max (set (map (\<lambda>p. height (snd p)) cs)))"
  by pat_completeness auto
termination
proof (relation "measure size", goal_cases)
  case 1
  show ?case by simp
next
  case 2
  have aux: "size (snd p) < Suc (size_list (\<lambda>x. Suc (size (snd x))) cs)"
    if "p \<in> set cs" for p :: "'a \<times> 'a node" and cs
    using that by (induction cs) auto
  from 2 show ?case by (simp add: aux size_prod_simp)
qed

definition stats :: "'a trie \<Rightarrow> int \<times> nat \<times> int" where
  "stats t = (total_words t, height (root t), total_nodes t)"

text \<open>
  The nested \<^verbatim>\<open>gather(node, prefix)\<close> appends to \<^verbatim>\<open>pairs\<close>;
  \<^verbatim>\<open>for ch, nxt in node.children.items()\<close> runs in the dict's own order, the
  insertion order.
\<close>

function gather :: "'a node \<Rightarrow> 'a list \<Rightarrow> ('a list \<times> real) list \<Rightarrow> ('a list \<times> real) list" where
  "gather (Node cs w fr) pfx pairs =
     fold (\<lambda>p ps. gather (snd p) (pfx @ [fst p]) ps)
       cs
       (if w then pairs @ [(pfx, fr)] else pairs)"
  by pat_completeness auto
termination
proof (relation "measure (\<lambda>(nd, pfx, pairs). size nd)", goal_cases)
  case 1
  show ?case by simp
next
  case 2
  have aux: "size (snd p) < Suc (size_list (\<lambda>x. Suc (size (snd x))) cs)"
    if "p \<in> set cs" for p :: "'a \<times> 'a node" and cs
    using that by (induction cs) auto
  from 2 show ?case by (simp add: aux size_prod_simp)
qed

definition items :: "'a trie \<Rightarrow> ('a list \<times> real) list" where
  "items t = gather (root t) [] []"

subsection \<open>Sequences of operations\<close>

text \<open>
  A caller's history is a list of mutating calls applied to a fresh index, the
  result of \<^verbatim>\<open>remove\<close> being dropped.
\<close>

datatype 'a op = Insert "'a list" real | Remove "'a list"

fun apply_op :: "'a trie \<Rightarrow> 'a op \<Rightarrow> 'a trie" where
  "apply_op t (Insert word fr) = insert_word t word fr"
| "apply_op t (Remove word) = snd (remove t word)"

definition run :: "'a op list \<Rightarrow> 'a trie" where
  "run ops = foldl apply_op Trie ops"

section \<open>Notions the properties are stated with\<close>

text \<open>The node a path leads to, without the recorded path.\<close>

fun node_at :: "'a node \<Rightarrow> 'a list \<Rightarrow> 'a node option" where
  "node_at nd [] = Some nd"
| "node_at nd (ch # text) =
     (case map_of (children nd) ch of None \<Rightarrow> None | Some nxt \<Rightarrow> node_at nxt text)"

text \<open>The weight stored at the node of a path, if the path exists.\<close>

definition weight :: "'a trie \<Rightarrow> 'a list \<Rightarrow> real option" where
  "weight t word = (case trace t word of None \<Rightarrow> None | Some (nd, _) \<Rightarrow> Some (freq nd))"

text \<open>The keys of a dict are distinct, at every node.\<close>

function wf_node :: "'a node \<Rightarrow> bool" where
  "wf_node (Node cs w fr) =
     (distinct (map fst cs) \<and> list_all (\<lambda>p. wf_node (snd p)) cs)"
  by pat_completeness auto
termination
proof (relation "measure size", goal_cases)
  case 1
  show ?case by simp
next
  case 2
  have aux: "size (snd p) < Suc (size_list (\<lambda>x. Suc (size (snd x))) cs)"
    if "p \<in> set cs" for p :: "'a \<times> 'a node" and cs
    using that by (induction cs) auto
  from 2 show ?case by (simp add: aux size_prod_simp)
qed

definition wf_trie :: "'a trie \<Rightarrow> bool" where
  "wf_trie t = wf_node (root t)"

text \<open>The number of nodes of a subtree, its root included, and of its terminal nodes.\<close>

function count_nodes :: "'a node \<Rightarrow> nat" where
  "count_nodes (Node cs w fr) = 1 + sum_list (map (\<lambda>p. count_nodes (snd p)) cs)"
  by pat_completeness auto
termination
proof (relation "measure size", goal_cases)
  case 1
  show ?case by simp
next
  case 2
  have aux: "size (snd p) < Suc (size_list (\<lambda>x. Suc (size (snd x))) cs)"
    if "p \<in> set cs" for p :: "'a \<times> 'a node" and cs
    using that by (induction cs) auto
  from 2 show ?case by (simp add: aux size_prod_simp)
qed

function count_words :: "'a node \<Rightarrow> nat" where
  "count_words (Node cs w fr) =
     (if w then 1 else 0) + sum_list (map (\<lambda>p. count_words (snd p)) cs)"
  by pat_completeness auto
termination
proof (relation "measure size", goal_cases)
  case 1
  show ?case by simp
next
  case 2
  have aux: "size (snd p) < Suc (size_list (\<lambda>x. Suc (size (snd x))) cs)"
    if "p \<in> set cs" for p :: "'a \<times> 'a node" and cs
    using that by (induction cs) auto
  from 2 show ?case by (simp add: aux size_prod_simp)
qed

text \<open>I3 as the specification words it: in the subtree, every node without children is terminal.\<close>

function no_dead_leaf :: "'a node \<Rightarrow> bool" where
  "no_dead_leaf (Node cs w fr) =
     ((cs = [] \<longrightarrow> w) \<and> list_all (\<lambda>p. no_dead_leaf (snd p)) cs)"
  by pat_completeness auto
termination
proof (relation "measure size", goal_cases)
  case 1
  show ?case by simp
next
  case 2
  have aux: "size (snd p) < Suc (size_list (\<lambda>x. Suc (size (snd x))) cs)"
    if "p \<in> set cs" for p :: "'a \<times> 'a node" and cs
    using that by (induction cs) auto
  from 2 show ?case by (simp add: aux size_prod_simp)
qed

text \<open>The same for every node but the root of the index.\<close>

definition no_dead_branch :: "'a trie \<Rightarrow> bool" where
  "no_dead_branch t = list_all (\<lambda>p. no_dead_leaf (snd p)) (children (root t))"

text \<open>The tree with every weight erased: its nodes, children dicts and terminal flags.\<close>

function erase_freq :: "'a node \<Rightarrow> 'a node" where
  "erase_freq (Node cs w fr) = Node (map (\<lambda>p. (fst p, erase_freq (snd p))) cs) w 0"
  by pat_completeness auto
termination
proof (relation "measure size", goal_cases)
  case 1
  show ?case by simp
next
  case 2
  have aux: "size (snd p) < Suc (size_list (\<lambda>x. Suc (size (snd x))) cs)"
    if "p \<in> set cs" for p :: "'a \<times> 'a node" and cs
    using that by (induction cs) auto
  from 2 show ?case by (simp add: aux size_prod_simp)
qed

text \<open>
  One iteration of the pruning loop, and the loop as a recursion down the word:
  \<open>unwind\<close> returns the rebuilt node, whether the loop is still running, and
  the node counter.
\<close>

definition prune_step ::
  "'a option \<Rightarrow> 'a node \<Rightarrow> 'a option \<Rightarrow> 'a node \<Rightarrow> bool \<Rightarrow> int \<Rightarrow> 'a node \<times> bool \<times> int" where
  "prune_step ch parent chc child looping tn =
     (let parent' = put_child chc child parent in
      if looping \<and> children child = [] \<and> \<not> is_word child then
        (if has_key ch parent' then (del_key ch parent', True, tn - 1)
         else (parent', True, tn))
      else (parent', False, tn))"

fun unwind :: "'a option \<Rightarrow> 'a list \<Rightarrow> 'a node \<Rightarrow> int \<Rightarrow> ('a node \<times> bool \<times> int) option" where
  "unwind inc [] nd tn =
     (if is_word nd then Some (Node (children nd) False 0, True, tn) else None)"
| "unwind inc (c # w) nd tn =
     (case map_of (children nd) c of
        None \<Rightarrow> None
      | Some nxt \<Rightarrow>
          (case unwind (Some c) w nxt tn of
             None \<Rightarrow> None
           | Some (child, looping, tn') \<Rightarrow>
               Some (prune_step inc nd (Some c) child looping tn')))"

text \<open>What \<^verbatim>\<open>dfs\<close> does with one terminal word, and the terminal words in the order it meets them.\<close>

definition offer :: "int \<Rightarrow> 'a::linorder item \<Rightarrow> 'a item list \<Rightarrow> 'a item list" where
  "offer k item heap =
     (if int (length heap) < k then heappush heap item else heappushpop heap item)"

function words_from :: "'a::linorder node \<Rightarrow> 'a list \<Rightarrow> 'a item list" where
  "words_from (Node cs w fr) built =
     (if w then [(fr, built)] else []) @
     concat (map (\<lambda>p. words_from (snd p) (built @ [fst p])) (sort_key fst cs))"
  by pat_completeness auto
termination
proof (relation "measure (\<lambda>(nd, built). size nd)", goal_cases)
  case 1
  show ?case by simp
next
  case 2
  have aux: "size (snd p) < Suc (size_list (\<lambda>x. Suc (size (snd x))) cs)"
    if "p \<in> set cs" for p :: "'a \<times> 'a node" and cs
    using that by (induction cs) auto
  from 2 show ?case by (simp add: aux size_prod_simp)
qed

text \<open>
  The ranking of the specification: \<open>u\<close> comes before \<open>v\<close> when its weight is
  higher, or the weights are equal and \<open>u\<close> is lexicographically smaller.
\<close>

definition precedes :: "'a::linorder trie \<Rightarrow> 'a list \<Rightarrow> 'a list \<Rightarrow> bool" where
  "precedes t u v =
     (case weight t u of
        None \<Rightarrow> False
      | Some a \<Rightarrow> (case weight t v of None \<Rightarrow> False | Some b \<Rightarrow> b < a \<or> (a = b \<and> u < v)))"

text \<open>
  The pre-order listing of the terminal nodes below a node, each with the word
  of its path and its weight: the node itself first, then its children in the
  order of the \<^verbatim>\<open>children\<close> dict, the insertion order.
\<close>

function preorder :: "'a node \<Rightarrow> 'a list \<Rightarrow> ('a list \<times> real) list" where
  "preorder (Node cs w fr) pfx =
     (if w then [(pfx, fr)] else []) @
     concat (map (\<lambda>p. preorder (snd p) (pfx @ [fst p])) cs)"
  by pat_completeness auto
termination
proof (relation "measure (\<lambda>(nd, pfx). size nd)", goal_cases)
  case 1
  show ?case by simp
next
  case 2
  have aux: "size (snd p) < Suc (size_list (\<lambda>x. Suc (size (snd x))) cs)"
    if "p \<in> set cs" for p :: "'a \<times> 'a node" and cs
    using that by (induction cs) auto
  from 2 show ?case by (simp add: aux size_prod_simp)
qed

section \<open>Traversal and removal, by recursion on the word\<close>

lemma trace_from_node_at:
  "map_option fst (trace_from w nd path) = node_at nd w"
  by (induction w arbitrary: nd path) (auto split: option.splits)

lemma trace_node_at: "map_option fst (trace t w) = node_at (root t) w"
  by (simp add: trace_def trace_from_node_at)

lemma contains_node_at:
  "contains t w = (case node_at (root t) w of None \<Rightarrow> False | Some nd \<Rightarrow> is_word nd)"
  using trace_node_at [of t w]
  by (auto simp: contains_def split: option.splits)

lemma weight_node_at: "weight t w = map_option freq (node_at (root t) w)"
proof (cases "trace t w")
  case None
  then show ?thesis using trace_node_at [of t w] by (simp add: weight_def)
next
  case (Some a)
  then show ?thesis using trace_node_at [of t w, symmetric] by (cases a) (simp add: weight_def)
qed

lemma prune_Cons:
  "prune ((parent, ch) # up) child chc looping tn =
     (case prune_step ch parent chc child looping tn of
        (p, l, tn') \<Rightarrow> prune up p ch l tn')"
  by (simp add: prune_step_def Let_def)

lemma unwind_None:
  "unwind inc w nd tn = None \<longleftrightarrow>
     (case node_at nd w of None \<Rightarrow> True | Some x \<Rightarrow> \<not> is_word x)"
proof (induction w arbitrary: nd inc)
  case Nil
  show ?case by simp
next
  case (Cons c w)
  show ?case
  proof (cases "map_of (children nd) c")
    case None
    then show ?thesis by simp
  next
    case (Some nxt)
    show ?thesis
    proof (cases "unwind (Some c) w nxt tn")
      case None
      with Some Cons.IH [of "Some c" nxt] show ?thesis by simp
    next
      case (Some a)
      with \<open>map_of (children nd) c = Some nxt\<close> Cons.IH [of "Some c" nxt] show ?thesis
        by (cases a) simp
    qed
  qed
qed

lemma prune_unwind:
  assumes "trace_from w nd (acc @ [(nd, inc)]) = Some (x, path)" and "is_word x"
  shows "\<exists>child l tn'. unwind inc w nd tn = Some (child, l, tn') \<and>
           prune (rev (butlast path)) (Node (children x) False 0) (snd (last path)) True tn
             = prune (rev acc) child inc l tn'"
  using assms
proof (induction w arbitrary: nd acc inc)
  case Nil
  then have "(nd, acc @ [(nd, inc)]) = (x, path)"
    by (simp only: trace_from.simps option.inject)
  then have "x = nd" and "path = acc @ [(nd, inc)]" by blast+
  with Nil.prems(2) show ?case by simp blast
next
  case (Cons c w)
  from Cons.prems obtain nxt where nxt: "map_of (children nd) c = Some nxt"
    and tr: "trace_from w nxt ((acc @ [(nd, inc)]) @ [(nxt, Some c)]) = Some (x, path)"
    by (auto split: option.splits)
  from Cons.IH [OF tr Cons.prems(2)] obtain child l tn' where
    u: "unwind (Some c) w nxt tn = Some (child, l, tn')" and
    p: "prune (rev (butlast path)) (Node (children x) False 0) (snd (last path)) True tn
          = prune (rev (acc @ [(nd, inc)])) child (Some c) l tn'"
    by blast
  obtain p' l' tn'' where st: "prune_step inc nd (Some c) child l tn' = (p', l', tn'')"
    by (cases "prune_step inc nd (Some c) child l tn'") auto
  have "unwind inc (c # w) nd tn = Some (p', l', tn'')"
    using nxt u st by simp
  moreover have "prune (rev (acc @ [(nd, inc)])) child (Some c) l tn' = prune (rev acc) p' inc l' tn''"
    using st by (simp add: prune_Cons del: prune.simps)
  ultimately show ?case using p by simp
qed

lemma remove_unwind:
  "remove t w =
     (case unwind None w (root t) (total_nodes t) of
        None \<Rightarrow> (False, t)
      | Some (r, l, tn) \<Rightarrow>
          (True, \<lparr>root = r, total_words = total_words t - 1, total_nodes = tn\<rparr>))"
proof (cases "trace t w")
  case None
  then have "node_at (root t) w = None" using trace_node_at [of t w] by simp
  then have "unwind None w (root t) (total_nodes t) = None" by (simp add: unwind_None)
  with None show ?thesis by (simp add: remove_def)
next
  case (Some a)
  obtain x path where a: "a = (x, path)" by (cases a)
  have na: "node_at (root t) w = Some x" using trace_node_at [of t w] Some a by simp
  show ?thesis
  proof (cases "is_word x")
    case False
    then have "unwind None w (root t) (total_nodes t) = None" using na by (simp add: unwind_None)
    with Some a False show ?thesis by (simp add: remove_def)
  next
    case True
    from Some a have "trace_from w (root t) ([] @ [(root t, None)]) = Some (x, path)"
      by (simp add: trace_def)
    from prune_unwind [OF this True, of "total_nodes t"] obtain child l tn' where
      "unwind None w (root t) (total_nodes t) = Some (child, l, tn')"
      "prune (rev (butlast path)) (Node (children x) False 0) (snd (last path)) True (total_nodes t)
         = (child, tn')"
      by auto
    with Some a True show ?thesis by (simp add: remove_def)
  qed
qed

lemma put_child_sel [simp]:
  "children (put_child (Some c) child nd) = AList.update c child (children nd)"
  "is_word (put_child chc child nd) = is_word nd"
  "freq (put_child chc child nd) = freq nd"
  by (auto simp: put_child_def split: option.splits)

lemma del_key_sel [simp]:
  "children (del_key (Some d) nd) = AList.delete d (children nd)"
  "is_word (del_key ch nd) = is_word nd"
  "freq (del_key ch nd) = freq nd"
  by (auto simp: del_key_def split: option.splits)

lemma has_key_simps [simp]:
  "has_key None nd = False"
  "has_key (Some d) nd = (map_of (children nd) d \<noteq> None)"
  by (simp_all add: has_key_def)

lemma prune_step_cases:
  assumes "prune_step inc nd (Some c) child l tn = (p', l', tn')"
  obtains
    (kept) "p' = put_child (Some c) child nd" "tn' = tn"
      "l' \<longleftrightarrow> l \<and> children child = [] \<and> \<not> is_word child"
      "l' \<Longrightarrow> \<not> has_key inc (put_child (Some c) child nd)"
  | (deleted) d where "inc = Some d" "p' = del_key (Some d) (put_child (Some c) child nd)"
      "tn' = tn - 1" "l" "l'" "children child = []" "\<not> is_word child"
      "map_of (AList.update c child (children nd)) d \<noteq> None"
  using assms
  by (cases inc) (auto simp: prune_step_def Let_def split: if_splits)

lemma unwind_not_word:
  "unwind inc w nd tn = Some (nd', l, tn') \<Longrightarrow>
     (case node_at nd' w of None \<Rightarrow> True | Some x \<Rightarrow> \<not> is_word x)"
proof (induction w arbitrary: inc nd nd' l tn')
  case Nil
  then show ?case by (auto split: if_splits)
next
  case (Cons c w)
  from Cons.prems obtain nxt child l0 tn0 where
    nxt: "map_of (children nd) c = Some nxt" and
    u: "unwind (Some c) w nxt tn = Some (child, l0, tn0)" and
    st: "prune_step inc nd (Some c) child l0 tn0 = (nd', l, tn')"
    by (auto split: option.splits)
  note IH = Cons.IH [OF u]
  from st show ?case
  proof (cases rule: prune_step_cases)
    case kept
    then show ?thesis using IH by (simp add: update_conv')
  next
    case (deleted d)
    then show ?thesis using IH by (simp add: update_conv' delete_conv')
  qed
qed


lemma remove_absent: "\<not> contains t w \<Longrightarrow> remove t w = (False, t)"
proof -
  assume "\<not> contains t w"
  then have "unwind None w (root t) (total_nodes t) = None"
    by (auto simp: unwind_None contains_node_at split: option.splits)
  then show ?thesis by (simp add: remove_unwind)
qed

section \<open>Removal\<close>

text \<open>
  Claim C4. For every index and every word \<open>w\<close>, \<^verbatim>\<open>remove(w)\<close> returns true
  exactly when \<^verbatim>\<open>contains(w)\<close> is true just before the call. When it returns
  false the whole index (tree and both counters) is unchanged. When it returns
  true, \<^verbatim>\<open>_total_words\<close> is one less, \<^verbatim>\<open>contains(w)\<close> is false afterwards, and
  a second \<^verbatim>\<open>remove(w)\<close> returns false.
\<close>

theorem remove_found_iff:
  "fst (remove t w) = contains t w \<and>
   (\<not> contains t w \<longrightarrow> snd (remove t w) = t) \<and>
   (contains t w \<longrightarrow>
      total_words (snd (remove t w)) = total_words t - 1 \<and>
      \<not> contains (snd (remove t w)) w \<and>
      \<not> fst (remove (snd (remove t w)) w))"
proof (cases "unwind None w (root t) (total_nodes t)")
  case None
  then have "\<not> contains t w"
    by (auto simp: unwind_None contains_node_at split: option.splits)
  with None show ?thesis by (simp add: remove_unwind)
next
  case (Some a)
  obtain r l tn where a: "a = (r, l, tn)" by (cases a)
  let ?t' = "\<lparr>root = r, total_words = total_words t - 1, total_nodes = tn\<rparr>"
  have rm: "remove t w = (True, ?t')" using Some a by (simp add: remove_unwind)
  have "unwind None w (root t) (total_nodes t) \<noteq> None" using Some by simp
  then have c: "contains t w"
    by (auto simp: unwind_None contains_node_at split: option.splits)
  have nc: "\<not> contains ?t' w"
    using unwind_not_word [of None w "root t" "total_nodes t" r l tn] Some a
    by (auto simp: contains_node_at split: option.splits)
  then have "unwind None w (root ?t') (total_nodes ?t') = None"
    by (auto simp: unwind_None contains_node_at split: option.splits)
  then have "\<not> fst (remove ?t' w)" by (simp add: remove_unwind)
  with rm c nc show ?thesis by simp
qed

theorem remove_found_iff_witness:
  "contains (run [Insert ''ab'' 1]) ''ab'' \<and>
   fst (remove (run [Insert ''ab'' 1]) ''ab'') \<and>
   total_words (snd (remove (run [Insert ''ab'' 1]) ''ab'')) = 0 \<and>
   \<not> contains (snd (remove (run [Insert ''ab'' 1]) ''ab'')) ''ab'' \<and>
   \<not> fst (remove (snd (remove (run [Insert ''ab'' 1]) ''ab'')) ''ab'') \<and>
   \<not> contains (run [Insert ''ab'' 1]) ''b'' \<and>
   snd (remove (run [Insert ''ab'' 1]) ''b'') = run [Insert ''ab'' 1]"
proof -
  have c: "contains (run [Insert ''ab'' 1]) ''ab''" by code_simp
  have n: "\<not> contains (run [Insert ''ab'' 1]) ''b''" by code_simp
  have w: "total_words (run [Insert ''ab'' 1]) = 1" by code_simp
  show ?thesis
    using remove_found_iff [of "run [Insert ''ab'' 1]" "''ab''"]
      remove_found_iff [of "run [Insert ''ab'' 1]" "''b''"] c n w
    by simp
qed

section \<open>Counters and the number of nodes\<close>

lemma set_update_subset: "set (AList.update k v al) \<subseteq> insert (k, v) (set al)"
  by (induction al) auto

lemma in_update_self: "(k, v) \<in> set (AList.update k v al)"
  by (induction al) auto

lemma set_delete_subset: "set (AList.delete k al) \<subseteq> set al"
  by (induction al) auto

lemma sum_update_Some:
  "map_of al k = Some x \<Longrightarrow>
     sum_list (map (\<lambda>p. g (snd p)) (AList.update k v al)) + g x
       = sum_list (map (\<lambda>p. g (snd p)) al) + (g v :: nat)"
  by (induction al) (auto split: if_splits)

lemma sum_update_None:
  "map_of al k = None \<Longrightarrow>
     sum_list (map (\<lambda>p. g (snd p)) (AList.update k v al))
       = sum_list (map (\<lambda>p. g (snd p)) al) + (g v :: nat)"
  by (induction al) (auto split: if_splits)

lemma sum_delete_le:
  "sum_list (map (\<lambda>p. g (snd p)) (AList.delete k al))
     \<le> sum_list (map (\<lambda>p. (g (snd p) :: nat)) al)"
  by (induction al) auto

lemma sum_delete_less:
  "map_of al k \<noteq> None \<Longrightarrow> (\<And>x. 1 \<le> g x) \<Longrightarrow>
     sum_list (map (\<lambda>p. g (snd p)) (AList.delete k al)) + 1
       \<le> sum_list (map (\<lambda>p. (g (snd p) :: nat)) al)"
proof (induction al)
  case Nil
  then show ?case by simp
next
  case (Cons a al)
  show ?case
  proof (cases "fst a = k")
    case True
    have "sum_list (map (\<lambda>p. g (snd p)) (AList.delete k al))
            \<le> sum_list (map (\<lambda>p. g (snd p)) al)"
      by (rule sum_delete_le)
    moreover have "1 \<le> g (snd a)" by (rule Cons.prems)
    ultimately show ?thesis using True by simp
  next
    case False
    then have "map_of al k \<noteq> None" using Cons.prems(1) by (cases a) auto
    from Cons.IH [OF this Cons.prems(2)] False show ?thesis by simp
  qed
qed

lemma count_nodes_pos: "1 \<le> count_nodes nd"
  by (cases nd) simp

lemma count_nodes_sel: "count_nodes nd = 1 + sum_list (map (\<lambda>p. count_nodes (snd p)) (children nd))"
  by (cases nd) simp

lemma count_words_sel:
  "count_words nd = (if is_word nd then 1 else 0) + sum_list (map (\<lambda>p. count_words (snd p)) (children nd))"
  by (cases nd) simp

lemma insert_from_counts:
  "insert_from w f nd tw tn = (nd', tw', tn') \<Longrightarrow>
     tn' + int (count_nodes nd) = tn + int (count_nodes nd') \<and>
     tw' + int (count_words nd) = tw + int (count_words nd')"
proof (induction w arbitrary: nd tw tn nd' tw' tn')
  case Nil
  then show ?case by (cases nd) auto
next
  case (Cons c w)
  show ?case
  proof (cases "map_of (children nd) c")
    case None
    obtain ch tw1 tn1 where r: "insert_from w f TrieNode tw (tn + 1) = (ch, tw1, tn1)"
      by (cases "insert_from w f TrieNode tw (tn + 1)") auto
    from Cons.IH [OF r] have
      "tn1 + int (count_nodes (TrieNode :: 'a node)) = tn + 1 + int (count_nodes ch)"
      "tw1 + int (count_words (TrieNode :: 'a node)) = tw + int (count_words ch)" by auto
    then have a: "tn1 = tn + int (count_nodes ch)" "tw1 = tw + int (count_words ch)"
      by (simp_all add: TrieNode_def)
    from Cons.prems None r have e:
      "nd' = Node (AList.update c ch (children nd)) (is_word nd) (freq nd)" "tw' = tw1" "tn' = tn1"
      by auto
    show ?thesis
      using a e sum_update_None [OF None, of count_nodes ch] sum_update_None [OF None, of count_words ch]
      by (simp add: count_nodes_sel [of nd] count_words_sel [of nd])
  next
    case (Some nxt)
    obtain ch tw1 tn1 where r: "insert_from w f nxt tw tn = (ch, tw1, tn1)"
      by (cases "insert_from w f nxt tw tn") auto
    note a = Cons.IH [OF r]
    from Cons.prems Some r have e:
      "nd' = Node (AList.update c ch (children nd)) (is_word nd) (freq nd)" "tw' = tw1" "tn' = tn1"
      by auto
    show ?thesis
      using a e sum_update_Some [OF Some, of count_nodes ch] sum_update_Some [OF Some, of count_words ch]
      by (simp add: count_nodes_sel [of nd] count_words_sel [of nd])
  qed
qed

lemma count_nodes_put_child:
  "map_of (children nd) c = Some nxt \<Longrightarrow>
     count_nodes (put_child (Some c) child nd) + count_nodes nxt = count_nodes nd + count_nodes child"
  using sum_update_Some [of "children nd" c nxt count_nodes child]
  by (simp add: count_nodes_sel [of nd] count_nodes_sel [of "put_child (Some c) child nd"])

lemma count_nodes_del_key:
  "map_of (children nd) d \<noteq> None \<Longrightarrow> count_nodes (del_key (Some d) nd) + 1 \<le> count_nodes nd"
  using sum_delete_less [of "children nd" d count_nodes, OF _ count_nodes_pos]
  by (simp add: count_nodes_sel [of nd] count_nodes_sel [of "del_key (Some d) nd"])

lemma unwind_counts:
  "unwind inc w nd tn = Some (nd', l, tn') \<Longrightarrow>
     tn + int (count_nodes nd') \<le> tn' + int (count_nodes nd)"
proof (induction w arbitrary: inc nd nd' l tn')
  case Nil
  then show ?case by (cases nd) (auto split: if_splits)
next
  case (Cons c w)
  from Cons.prems obtain nxt child l0 tn0 where
    nxt: "map_of (children nd) c = Some nxt" and
    u: "unwind (Some c) w nxt tn = Some (child, l0, tn0)" and
    st: "prune_step inc nd (Some c) child l0 tn0 = (nd', l, tn')"
    by (auto split: option.splits)
  note IH = Cons.IH [OF u]
  note pc = count_nodes_put_child [OF nxt, of child]
  from st show ?case
  proof (cases rule: prune_step_cases)
    case kept
    then show ?thesis using IH pc by simp
  next
    case (deleted d)
    have "count_nodes (del_key (Some d) (put_child (Some c) child nd)) + 1
            \<le> count_nodes (put_child (Some c) child nd)"
      by (rule count_nodes_del_key) (use deleted in simp)
    then show ?thesis using deleted IH pc by simp
  qed
qed

lemma run_snoc: "run (ops @ [x]) = apply_op (run ops) x"
  by (simp add: run_def)

lemma run_Nil: "run [] = Trie"
  by (simp add: run_def)

lemma counter_bounds_nodes: "int (count_nodes (root (run ops))) \<le> total_nodes (run ops)"
proof (induction ops rule: rev_induct)
  case Nil
  show ?case by (simp add: run_Nil Trie_def TrieNode_def)
next
  case (snoc x ops)
  let ?t = "run ops"
  show ?case
  proof (cases x)
    case (Insert w f)
    obtain r tw tn where r: "insert_from w f (root ?t) (total_words ?t) (total_nodes ?t) = (r, tw, tn)"
      by (cases "insert_from w f (root ?t) (total_words ?t) (total_nodes ?t)") auto
    from insert_from_counts [OF r] snoc show ?thesis
      by (simp add: run_snoc Insert insert_word_def r)
  next
    case (Remove w)
    show ?thesis
    proof (cases "unwind None w (root ?t) (total_nodes ?t)")
      case None
      with snoc show ?thesis by (simp add: run_snoc Remove remove_unwind)
    next
      case (Some a)
      obtain r l tn where a: "a = (r, l, tn)" by (cases a)
      from unwind_counts [of None w "root ?t" "total_nodes ?t" r l tn] Some a snoc
      show ?thesis by (simp add: run_snoc Remove remove_unwind)
    qed
  qed
qed

text \<open>
  Claim C10. After every sequence of \<^verbatim>\<open>insert\<close> and \<^verbatim>\<open>remove\<close> calls on a fresh
  index the root is still there and \<^verbatim>\<open>_total_nodes\<close> is at least 1: the tree
  under the root has at least one node (the root itself, which no call detaches:
  \<^verbatim>\<open>self.root\<close> is assigned in \<^verbatim>\<open>__init__\<close> only, and the pruning loop deletes
  entries of \<^verbatim>\<open>children\<close> dicts, of which the root is in none), and the counter is
  never below the number of nodes of that tree. Removing the empty word when it
  is present returns true, clears the root's terminal flag and weight, and
  leaves the children and \<^verbatim>\<open>_total_nodes\<close> as they are, also when the root is
  then a non-terminal node without children.
\<close>

theorem root_kept:
  "1 \<le> count_nodes (root (run ops)) \<and>
   int (count_nodes (root (run ops))) \<le> total_nodes (run ops) \<and>
   1 \<le> total_nodes (run ops) \<and>
   (contains (run ops) [] \<longrightarrow>
      remove (run ops) [] =
        (True, \<lparr>root = Node (children (root (run ops))) False 0,
                total_words = total_words (run ops) - 1,
                total_nodes = total_nodes (run ops)\<rparr>))"
proof -
  have a: "1 \<le> count_nodes (root (run ops))" by (rule count_nodes_pos)
  have b: "int (count_nodes (root (run ops))) \<le> total_nodes (run ops)"
    by (rule counter_bounds_nodes)
  from a b have c: "1 \<le> total_nodes (run ops)" by linarith
  have d: "contains (run ops) [] \<longrightarrow>
      remove (run ops) [] =
        (True, \<lparr>root = Node (children (root (run ops))) False 0,
                total_words = total_words (run ops) - 1,
                total_nodes = total_nodes (run ops)\<rparr>)"
    by (simp add: contains_def remove_def trace_def)
  from a b c d show ?thesis by blast
qed

theorem root_kept_witness:
  "contains (run [Insert [] 2, Insert ''a'' 1, Remove ''a'']) [] \<and>
   remove (run [Insert [] 2, Insert ''a'' 1, Remove ''a'']) [] =
     (True, \<lparr>root = Node [(CHR ''a'', Node [] False 0)] False 0, total_words = 0, total_nodes = 2\<rparr>) \<and>
   contains (run [Insert ([] :: string) 2]) [] \<and>
   remove (run [Insert ([] :: string) 2]) [] =
     (True, \<lparr>root = Node [] False 0, total_words = 0, total_nodes = 1\<rparr>)"
proof -
  have r1: "run [Insert [] 2, Insert ''a'' 1, Remove ''a'']
      = \<lparr>root = Node [(CHR ''a'', Node [] False 0)] True 2, total_words = 1, total_nodes = 2\<rparr>"
    by code_simp
  have r2: "run [Insert ([] :: string) 2] = \<lparr>root = Node [] True 2, total_words = 1, total_nodes = 1\<rparr>"
    by code_simp
  have c1: "contains (run [Insert [] 2, Insert ''a'' 1, Remove ''a'']) []" by code_simp
  have c2: "contains (run [Insert ([] :: string) 2]) []" by code_simp
  show ?thesis
    using root_kept [of "[Insert [] 2, Insert ''a'' 1, Remove ''a'']"]
      root_kept [of "[Insert ([] :: string) 2]"] c1 c2
    by (simp add: r1 r2)
qed


text \<open>
  Claim C3 says that after any sequence of inserts and removes on a fresh index
  \<^verbatim>\<open>_total_nodes\<close> is the number of reachable nodes and \<^verbatim>\<open>_total_words\<close> the
  number of reachable terminal nodes. The code breaks both: the pruning loop of
  \<^verbatim>\<open>remove\<close> unpacks \<^verbatim>\<open>ch\<close> from \<^verbatim>\<open>path[i - 1]\<close>, the parent's own incoming
  symbol, and deletes \<^verbatim>\<open>parent.children[ch]\<close>. After \<^verbatim>\<open>insert("aab")\<close>,
  \<^verbatim>\<open>insert("aaaa")\<close>, \<^verbatim>\<open>remove("aab")\<close> the subtree of \<^verbatim>\<open>"aaa"\<close> (two nodes, one
  word) is detached for one decrement of \<^verbatim>\<open>_total_nodes\<close> and none of
  \<^verbatim>\<open>_total_words\<close>: \<^verbatim>\<open>stats()\<close> is \<^verbatim>\<open>(1, 3, 5)\<close>, the tree has 4 nodes and no
  terminal node, and \<^verbatim>\<open>"aaaa"\<close>, never removed, is gone.
\<close>

theorem counters_diverge:
  "stats (run [Insert ''aab'' 1, Insert ''aaaa'' 1, Remove ''aab'']) = (1, 3, 5) \<and>
   count_nodes (root (run [Insert ''aab'' 1, Insert ''aaaa'' 1, Remove ''aab''])) = 4 \<and>
   count_words (root (run [Insert ''aab'' 1, Insert ''aaaa'' 1, Remove ''aab''])) = 0 \<and>
   \<not> contains (run [Insert ''aab'' 1, Insert ''aaaa'' 1, Remove ''aab'']) ''aaaa''"
  by code_simp

section \<open>Dead branches\<close>

lemma no_dead_leaf_sel:
  "no_dead_leaf nd \<longleftrightarrow>
     (children nd = [] \<longrightarrow> is_word nd) \<and> (\<forall>p \<in> set (children nd). no_dead_leaf (snd p))"
  by (cases nd) (simp add: list_all_iff)

lemma no_dead_branch_iff:
  "no_dead_branch t \<longleftrightarrow> (\<forall>p \<in> set (children (root t)). no_dead_leaf (snd p))"
  by (simp add: no_dead_branch_def list_all_iff)

lemma map_of_in_set: "map_of al k = Some v \<Longrightarrow> (k, v) \<in> set al"
  by (rule map_of_SomeD)

lemma insert_from_no_dead_leaf:
  "\<forall>p \<in> set (children nd). no_dead_leaf (snd p) \<Longrightarrow>
     insert_from w f nd tw tn = (nd', tw', tn') \<Longrightarrow> no_dead_leaf nd'"
proof (induction w arbitrary: nd tw tn nd' tw' tn')
  case Nil
  then show ?case by (auto simp: no_dead_leaf_sel [of nd'])
next
  case (Cons c w)
  have upd: "no_dead_leaf (Node (AList.update c ch (children nd)) (is_word nd) (freq nd))"
    if "no_dead_leaf ch" for ch
    using that Cons.prems(1) set_update_subset [of c ch "children nd"]
    by (subst no_dead_leaf_sel) auto
  show ?case
  proof (cases "map_of (children nd) c")
    case None
    obtain ch tw1 tn1 where r: "insert_from w f TrieNode tw (tn + 1) = (ch, tw1, tn1)"
      by (cases "insert_from w f TrieNode tw (tn + 1)") auto
    have "no_dead_leaf ch" by (rule Cons.IH [OF _ r]) (simp add: TrieNode_def)
    with Cons.prems(2) None r upd show ?thesis by auto
  next
    case (Some nxt)
    obtain ch tw1 tn1 where r: "insert_from w f nxt tw tn = (ch, tw1, tn1)"
      by (cases "insert_from w f nxt tw tn") auto
    from Some have "(c, nxt) \<in> set (children nd)" by (rule map_of_SomeD)
    with Cons.prems(1) have "no_dead_leaf nxt" by auto
    then have "\<forall>p \<in> set (children nxt). no_dead_leaf (snd p)"
      by (simp add: no_dead_leaf_sel [of nxt])
    from Cons.IH [OF this r] have "no_dead_leaf ch" .
    with Cons.prems(2) Some r upd show ?thesis by auto
  qed
qed

lemma unwind_inner_no_dead_leaf:
  "\<forall>p \<in> set (children nd). no_dead_leaf (snd p) \<Longrightarrow>
   unwind inc w nd tn = Some (nd', l, tn') \<Longrightarrow>
   node_at nd w = Some x \<Longrightarrow> children x \<noteq> [] \<Longrightarrow>
     (\<forall>p \<in> set (children nd'). no_dead_leaf (snd p)) \<and> children nd' \<noteq> [] \<and> tn' = tn"
proof (induction w arbitrary: inc nd nd' l tn')
  case Nil
  then show ?case by (auto split: if_splits)
next
  case (Cons c w)
  from Cons.prems(2) obtain nxt child l0 tn0 where
    nxt: "map_of (children nd) c = Some nxt" and
    u: "unwind (Some c) w nxt tn = Some (child, l0, tn0)" and
    st: "prune_step inc nd (Some c) child l0 tn0 = (nd', l, tn')"
    by (auto split: option.splits)
  from nxt have "(c, nxt) \<in> set (children nd)" by (rule map_of_SomeD)
  with Cons.prems(1) have "no_dead_leaf nxt" by auto
  then have P: "\<forall>p \<in> set (children nxt). no_dead_leaf (snd p)"
    by (simp add: no_dead_leaf_sel [of nxt])
  from Cons.prems(3) nxt have na: "node_at nxt w = Some x" by simp
  from Cons.IH [OF P u na Cons.prems(4)] have
    ch: "\<forall>p \<in> set (children child). no_dead_leaf (snd p)" "children child \<noteq> []" "tn0 = tn"
    by auto
  then have ndl: "no_dead_leaf child" by (simp add: no_dead_leaf_sel [of child])
  from st ch(2) have e: "nd' = put_child (Some c) child nd" "tn' = tn0"
    by (auto simp: prune_step_def Let_def)
  show ?case
    using e ch(3) ndl Cons.prems(1) set_update_subset [of c child "children nd"]
    by auto
qed


text \<open>
  Claim C2, amended. In a fresh index every node but the root satisfies I3.
  If every node but the root satisfies I3 (no node without children is
  non-terminal), then this still holds after \<^verbatim>\<open>insert\<close>, after a \<^verbatim>\<open>remove\<close> of
  a word that is not present, and after a \<^verbatim>\<open>remove\<close> of a word whose node has
  children. The root itself may be a non-terminal node without children.
  (A \<^verbatim>\<open>remove\<close> of a word whose node has no children runs the pruning loop;
  nothing is stated about it here.)
\<close>

theorem no_dead_branch_kept:
  "no_dead_branch Trie \<and>
   (no_dead_branch t \<longrightarrow>
      no_dead_branch (insert_word t w f) \<and>
      (\<not> contains t w \<longrightarrow> no_dead_branch (snd (remove t w))) \<and>
      ((\<exists>nd. node_at (root t) w = Some nd \<and> children nd \<noteq> []) \<longrightarrow>
         no_dead_branch (snd (remove t w))))"
proof -
  have a: "no_dead_branch Trie" by (simp add: no_dead_branch_def Trie_def TrieNode_def)
  have b: "no_dead_branch (insert_word t w f)" if h: "no_dead_branch t"
  proof -
    obtain r tw tn where r: "insert_from w f (root t) (total_words t) (total_nodes t) = (r, tw, tn)"
      by (cases "insert_from w f (root t) (total_words t) (total_nodes t)") auto
    from h have "\<forall>p \<in> set (children (root t)). no_dead_leaf (snd p)"
      by (simp add: no_dead_branch_iff)
    from insert_from_no_dead_leaf [OF this r] have "no_dead_leaf r" .
    then show ?thesis
      by (simp add: no_dead_branch_iff insert_word_def r no_dead_leaf_sel [of r])
  qed
  have c: "no_dead_branch (snd (remove t w))" if "no_dead_branch t" "\<not> contains t w"
    using that by (simp add: remove_absent)
  have d: "no_dead_branch (snd (remove t w))"
    if h: "no_dead_branch t" and n: "node_at (root t) w = Some nd" "children nd \<noteq> []" for nd
  proof (cases "unwind None w (root t) (total_nodes t)")
    case None
    with h show ?thesis by (simp add: remove_unwind)
  next
    case (Some a)
    obtain r l tn where a: "a = (r, l, tn)" by (cases a)
    from h have "\<forall>p \<in> set (children (root t)). no_dead_leaf (snd p)"
      by (simp add: no_dead_branch_iff)
    from unwind_inner_no_dead_leaf [OF this _ n, of None "total_nodes t" r l tn] Some a
    show ?thesis by (simp add: remove_unwind no_dead_branch_iff)
  qed
  from a b c d show ?thesis by blast
qed

theorem no_dead_branch_kept_witness:
  "no_dead_branch (run [Insert ''a'' 1, Insert ''ab'' 2]) \<and>
   no_dead_branch (insert_word (run [Insert ''a'' 1, Insert ''ab'' 2]) ''ac'' 3) \<and>
   \<not> contains (run [Insert ''a'' 1, Insert ''ab'' 2]) ''b'' \<and>
   no_dead_branch (snd (remove (run [Insert ''a'' 1, Insert ''ab'' 2]) ''b'')) \<and>
   node_at (root (run [Insert ''a'' 1, Insert ''ab'' 2])) ''a''
     = Some (Node [(CHR ''b'', Node [] True 2)] True 1) \<and>
   no_dead_branch (snd (remove (run [Insert ''a'' 1, Insert ''ab'' 2]) ''a''))"
proof -
  have h: "no_dead_branch (run [Insert ''a'' 1, Insert ''ab'' 2])" by code_simp
  have n: "\<not> contains (run [Insert ''a'' 1, Insert ''ab'' 2]) ''b''" by code_simp
  have x: "node_at (root (run [Insert ''a'' 1, Insert ''ab'' 2])) ''a''
     = Some (Node [(CHR ''b'', Node [] True 2)] True 1)" by code_simp
  show ?thesis
    using no_dead_branch_kept [of "run [Insert ''a'' 1, Insert ''ab'' 2]" "''ac''" 3]
      no_dead_branch_kept [of "run [Insert ''a'' 1, Insert ''ab'' 2]" "''b''"]
      no_dead_branch_kept [of "run [Insert ''a'' 1, Insert ''ab'' 2]" "''a''"] h n x
    by (simp del: node_at.simps) blast
qed


text \<open>
  Claim C2 says that after every \<^verbatim>\<open>insert\<close> or \<^verbatim>\<open>remove\<close> no node without
  children is non-terminal. The root is such a node whenever the index holds no
  word: the pruning loop stops at \<^verbatim>\<open>i = 1\<close> and never removes the root. Here the
  empty word is inserted and removed again.
\<close>

theorem dead_leaf_counterexample:
  "\<not> no_dead_leaf (root (snd (remove (insert_word (Trie :: char trie) [] 1) [])))"
  by code_simp

text \<open>
  The case the amended claim leaves out: the word ends at a node without
  children and the pruning loop runs. Its \<^verbatim>\<open>ch\<close> is the parent's incoming
  symbol, for the root \<^verbatim>\<open>''\<close>, which is no key; the node of \<^verbatim>\<open>"a"\<close> stays, as
  a non-terminal node without children, and \<^verbatim>\<open>_total_nodes\<close> stays 2.
\<close>

lemma dead_leaf_after_remove:
  "remove (insert_word (Trie :: char trie) ''a'' 1) ''a''
     = (True, \<lparr>root = Node [(CHR ''a'', Node [] False 0)] False 0,
               total_words = 0, total_nodes = 2\<rparr>) \<and>
   \<not> no_dead_branch (snd (remove (insert_word (Trie :: char trie) ''a'' 1) ''a''))"
  by code_simp

section \<open>Inserting a word that is present\<close>

lemma erase_freq_sel:
  "erase_freq nd = Node (map (\<lambda>p. (fst p, erase_freq (snd p))) (children nd)) (is_word nd) 0"
  by (cases nd) simp

lemma map_update_same:
  "map_of al k = Some x \<Longrightarrow> h v = h x \<Longrightarrow>
     map (\<lambda>p. (fst p, h (snd p))) (AList.update k v al) = map (\<lambda>p. (fst p, h (snd p))) al"
  by (induction al) (auto split: if_splits)

lemma insert_from_present:
  "node_at nd w = Some x \<Longrightarrow> is_word x \<Longrightarrow> insert_from w f nd tw tn = (nd', tw', tn') \<Longrightarrow>
     tw' = tw \<and> tn' = tn \<and> erase_freq nd' = erase_freq nd \<and>
     (\<forall>u. map_option freq (node_at nd' u)
            = (if u = w then Some f else map_option freq (node_at nd u)))"
proof (induction w arbitrary: nd nd' tw' tn')
  case Nil
  then have e: "nd' = Node (children nd) True f" "tw' = tw" "tn' = tn" "is_word nd" by auto
  have "map_option freq (node_at nd' u) = (if u = [] then Some f else map_option freq (node_at nd u))"
    for u
    by (cases u) (simp_all add: e)
  then show ?case using e by (simp add: erase_freq_sel [of nd] )
next
  case (Cons c w)
  from Cons.prems(1) obtain nxt where nxt: "map_of (children nd) c = Some nxt"
    and na: "node_at nxt w = Some x"
    by (auto split: option.splits)
  obtain ch tw1 tn1 where r: "insert_from w f nxt tw tn = (ch, tw1, tn1)"
    by (cases "insert_from w f nxt tw tn") auto
  from Cons.IH [OF na Cons.prems(2) r] have IH:
    "tw1 = tw" "tn1 = tn" "erase_freq ch = erase_freq nxt"
    "\<And>u. map_option freq (node_at ch u)
            = (if u = w then Some f else map_option freq (node_at nxt u))"
    by auto
  from Cons.prems(3) nxt r have e:
    "nd' = Node (AList.update c ch (children nd)) (is_word nd) (freq nd)" "tw' = tw1" "tn' = tn1"
    by auto
  have ef: "erase_freq nd' = erase_freq nd"
    using map_update_same [OF nxt, of erase_freq ch] IH(3)
    by (simp add: erase_freq_sel [of nd] e erase_freq_sel [of "Node (AList.update c ch (children nd)) (is_word nd) (freq nd)"])
  have "map_option freq (node_at nd' u)
          = (if u = c # w then Some f else map_option freq (node_at nd u))" for u
  proof (cases u)
    case Nil
    then show ?thesis by (simp add: e)
  next
    case (Cons d u')
    show ?thesis
    proof (cases "d = c")
      case True
      then show ?thesis using Cons IH(4) [of u'] nxt by (simp add: e update_conv')
    next
      case False
      then show ?thesis using Cons by (simp add: e update_conv')
    qed
  qed
  then show ?case using e IH(1,2) ef by simp
qed


text \<open>
  Claim C5. If the word \<open>w\<close> is present, \<^verbatim>\<open>insert(w, f2)\<close> changes only the
  weight stored at the node of \<open>w\<close>: \<^verbatim>\<open>_total_words\<close> and \<^verbatim>\<open>_total_nodes\<close> are
  unchanged; the tree with its weights erased (the nodes, the children dicts
  with their order, the terminal flags) is unchanged; the weight at \<open>w\<close> is
  \<open>f2\<close>; and the weight at every other path, so of every other word, is
  unchanged.
\<close>

theorem reinsert_updates_weight:
  "contains t w \<Longrightarrow>
     total_words (insert_word t w f2) = total_words t \<and>
     total_nodes (insert_word t w f2) = total_nodes t \<and>
     erase_freq (root (insert_word t w f2)) = erase_freq (root t) \<and>
     weight (insert_word t w f2) w = Some f2 \<and>
     (\<forall>u. u \<noteq> w \<longrightarrow> weight (insert_word t w f2) u = weight t u)"
proof -
  assume "contains t w"
  then obtain x where x: "node_at (root t) w = Some x" "is_word x"
    by (auto simp: contains_node_at split: option.splits)
  obtain r tw tn where r: "insert_from w f2 (root t) (total_words t) (total_nodes t) = (r, tw, tn)"
    by (cases "insert_from w f2 (root t) (total_words t) (total_nodes t)") auto
  from insert_from_present [OF x r] show ?thesis
    by (simp add: insert_word_def r weight_node_at)
qed

theorem reinsert_updates_weight_witness:
  "contains (run [Insert ''ab'' 1, Insert ''a'' 2]) ''ab'' \<and>
   total_words (insert_word (run [Insert ''ab'' 1, Insert ''a'' 2]) ''ab'' 7) = 2 \<and>
   total_nodes (insert_word (run [Insert ''ab'' 1, Insert ''a'' 2]) ''ab'' 7) = 3 \<and>
   weight (insert_word (run [Insert ''ab'' 1, Insert ''a'' 2]) ''ab'' 7) ''ab'' = Some 7 \<and>
   weight (insert_word (run [Insert ''ab'' 1, Insert ''a'' 2]) ''ab'' 7) ''a'' = Some 2"
proof -
  have c: "contains (run [Insert ''ab'' 1, Insert ''a'' 2]) ''ab''" by code_simp
  have w: "total_words (run [Insert ''ab'' 1, Insert ''a'' 2]) = 2" by code_simp
  have n: "total_nodes (run [Insert ''ab'' 1, Insert ''a'' 2]) = 3" by code_simp
  have a: "weight (run [Insert ''ab'' 1, Insert ''a'' 2]) ''a'' = Some 2" by code_simp
  from reinsert_updates_weight [OF c, of 7] have
    "weight (insert_word (run [Insert ''ab'' 1, Insert ''a'' 2]) ''ab'' 7) ''a''
       = weight (run [Insert ''ab'' 1, Insert ''a'' 2]) ''a''"
    by simp
  with reinsert_updates_weight [OF c, of 7] c w n a show ?thesis by simp
qed

section \<open>Well-formed indexes\<close>

lemma wf_node_distinct: "wf_node nd \<Longrightarrow> distinct (map fst (children nd))"
  by (cases nd) simp

lemma wf_node_childD: "wf_node nd \<Longrightarrow> p \<in> set (children nd) \<Longrightarrow> wf_node (snd p)"
  by (cases nd) (simp add: list_all_iff)

lemma wf_nodeI:
  "distinct (map fst cs) \<Longrightarrow> (\<And>p. p \<in> set cs \<Longrightarrow> wf_node (snd p)) \<Longrightarrow> wf_node (Node cs a b)"
  by (simp add: list_all_iff)

lemma wf_node_flags: "wf_node (Node (children nd) a b) = wf_node nd"
  by (cases nd) simp

lemma wf_node_child:
  assumes "wf_node nd" and "map_of (children nd) c = Some nxt"
  shows "wf_node nxt"
proof -
  from assms(2) have "(c, nxt) \<in> set (children nd)" by (rule map_of_SomeD)
  from wf_node_childD [OF assms(1) this] show ?thesis by simp
qed

lemma wf_node_at: "wf_node nd \<Longrightarrow> node_at nd w = Some x \<Longrightarrow> wf_node x"
proof (induction w arbitrary: nd)
  case Nil
  then show ?case by simp
next
  case (Cons c w)
  from Cons.prems(2) obtain nxt where n: "map_of (children nd) c = Some nxt" "node_at nxt w = Some x"
    by (auto split: option.splits)
  from Cons.IH [OF wf_node_child [OF Cons.prems(1) n(1)] n(2)] show ?case .
qed

lemma wf_node_update:
  assumes "wf_node nd" and "wf_node ch"
  shows "wf_node (Node (AList.update c ch (children nd)) (is_word nd) (freq nd))"
proof (rule wf_nodeI)
  show "distinct (map fst (AList.update c ch (children nd)))"
    using wf_node_distinct [OF assms(1)] by (rule distinct_update)
next
  fix p assume "p \<in> set (AList.update c ch (children nd))"
  with set_update_subset [of c ch "children nd"] have "p = (c, ch) \<or> p \<in> set (children nd)"
    by blast
  then show "wf_node (snd p)" using assms(2) wf_node_childD [OF assms(1)] by fastforce
qed

lemma wf_node_delete:
  assumes "wf_node nd"
  shows "wf_node (Node (AList.delete c (children nd)) (is_word nd) (freq nd))"
proof (rule wf_nodeI)
  show "distinct (map fst (AList.delete c (children nd)))"
    using wf_node_distinct [OF assms] by (rule distinct_delete)
next
  fix p assume "p \<in> set (AList.delete c (children nd))"
  with set_delete_subset [of c "children nd"] have "p \<in> set (children nd)" by blast
  then show "wf_node (snd p)" by (rule wf_node_childD [OF assms])
qed

lemma insert_from_wf:
  "wf_node nd \<Longrightarrow> insert_from w f nd tw tn = (nd', tw', tn') \<Longrightarrow> wf_node nd'"
proof (induction w arbitrary: nd tw tn nd' tw' tn')
  case Nil
  from Nil.prems(2) have "nd' = Node (children nd) True f" by simp
  with Nil.prems(1) show ?case by (simp only: wf_node_flags)
next
  case (Cons c w)
  show ?case
  proof (cases "map_of (children nd) c")
    case None
    obtain ch tw1 tn1 where r: "insert_from w f TrieNode tw (tn + 1) = (ch, tw1, tn1)"
      by (cases "insert_from w f TrieNode tw (tn + 1)") auto
    have "wf_node ch" by (rule Cons.IH [OF _ r]) (simp add: TrieNode_def)
    moreover from Cons.prems(2) None r
    have "nd' = Node (AList.update c ch (children nd)) (is_word nd) (freq nd)" by auto
    ultimately show ?thesis using Cons.prems(1) by (simp only: wf_node_update)
  next
    case (Some nxt)
    obtain ch tw1 tn1 where r: "insert_from w f nxt tw tn = (ch, tw1, tn1)"
      by (cases "insert_from w f nxt tw tn") auto
    have "wf_node ch" by (rule Cons.IH [OF wf_node_child [OF Cons.prems(1) Some] r])
    moreover from Cons.prems(2) Some r
    have "nd' = Node (AList.update c ch (children nd)) (is_word nd) (freq nd)" by auto
    ultimately show ?thesis using Cons.prems(1) by (simp only: wf_node_update)
  qed
qed

lemma unwind_wf:
  "wf_node nd \<Longrightarrow> unwind inc w nd tn = Some (nd', l, tn') \<Longrightarrow> wf_node nd'"
proof (induction w arbitrary: inc nd nd' l tn')
  case Nil
  from Nil.prems(2) have "nd' = Node (children nd) False 0" by (simp split: if_splits)
  with Nil.prems(1) show ?case by (simp only: wf_node_flags)
next
  case (Cons c w)
  from Cons.prems(2) obtain nxt child l0 tn0 where
    nxt: "map_of (children nd) c = Some nxt" and
    u: "unwind (Some c) w nxt tn = Some (child, l0, tn0)" and
    st: "prune_step inc nd (Some c) child l0 tn0 = (nd', l, tn')"
    by (auto split: option.splits)
  have "wf_node child" by (rule Cons.IH [OF wf_node_child [OF Cons.prems(1) nxt] u])
  with Cons.prems(1) have p: "wf_node (put_child (Some c) child nd)"
    unfolding put_child_def option.case by (rule wf_node_update)
  from st show ?case
  proof (cases rule: prune_step_cases)
    case kept
    with p show ?thesis by simp
  next
    case (deleted d)
    with wf_node_delete [OF p, of d] show ?thesis by (simp only: del_key_def option.case)
  qed
qed

lemma wf_trie_run: "wf_trie (run ops)"
proof (induction ops rule: rev_induct)
  case Nil
  show ?case by (simp add: run_Nil wf_trie_def Trie_def TrieNode_def)
next
  case (snoc x ops)
  let ?t = "run ops"
  from snoc have wf: "wf_node (root ?t)" by (simp add: wf_trie_def)
  show ?case
  proof (cases x)
    case (Insert w f)
    obtain r tw tn where r: "insert_from w f (root ?t) (total_words ?t) (total_nodes ?t) = (r, tw, tn)"
      by (cases "insert_from w f (root ?t) (total_words ?t) (total_nodes ?t)") auto
    from insert_from_wf [OF wf r] show ?thesis
      by (simp add: run_snoc Insert insert_word_def r wf_trie_def)
  next
    case (Remove w)
    show ?thesis
    proof (cases "unwind None w (root ?t) (total_nodes ?t)")
      case None
      with wf show ?thesis by (simp add: run_snoc Remove remove_unwind wf_trie_def)
    next
      case (Some a)
      obtain r l tn where a: "a = (r, l, tn)" by (cases a)
      from unwind_wf [OF wf, of None w "total_nodes ?t" r l tn] Some a
      show ?thesis by (simp add: run_snoc Remove remove_unwind wf_trie_def)
    qed
  qed
qed

lemma node_at_append:
  "node_at nd (u @ v) = (case node_at nd u of None \<Rightarrow> None | Some m \<Rightarrow> node_at m v)"
  by (induction u arbitrary: nd) (auto split: option.splits)

section \<open>Completion\<close>

lemma dfs_fold: "dfs k nd built heap = fold (offer k) (words_from nd built) heap"
proof (induction k nd built heap rule: dfs.induct)
  case (1 k cs w fr built heap)
  have kids: "fold (\<lambda>p h. dfs k (snd p) (built @ [fst p]) h) xs h0
      = fold (offer k) (concat (map (\<lambda>p. words_from (snd p) (built @ [fst p])) xs)) h0"
    if "set xs \<subseteq> set (sort_key fst cs)" for xs h0
    using that
  proof (induction xs arbitrary: h0)
    case Nil
    show ?case by simp
  next
    case (Cons a xs)
    from Cons.prems have "a \<in> set (sort_key fst cs)" by simp
    from "1.IH" [OF this] Cons.IH Cons.prems show ?case by simp
  qed
  have top: "(if int (length heap) < k then heappush heap (fr, built)
              else heappushpop heap (fr, built)) = offer k (fr, built) heap"
    by (simp add: offer_def)
  show ?case
    by (simp add: kids top)
qed

lemma node_at_Node_Cons:
  "distinct (map fst cs) \<Longrightarrow>
     node_at (Node cs wd fr) (c # w) = Some x \<longleftrightarrow> (\<exists>nxt. (c, nxt) \<in> set cs \<and> node_at nxt w = Some x)"
  by (auto split: option.splits dest: eq_key_imp_eq_value)

lemma words_from_iff:
  "wf_node nd \<Longrightarrow>
     (f, u) \<in> set (words_from nd built) \<longleftrightarrow>
       (\<exists>w x. u = built @ w \<and> node_at nd w = Some x \<and> is_word x \<and> f = freq x)"
proof (induction nd built arbitrary: f u rule: words_from.induct)
  case (1 cs wd fr built)
  from "1.prems" have d: "distinct (map fst cs)" and
    wfc: "\<And>p. p \<in> set cs \<Longrightarrow> wf_node (snd p)"
    by (simp_all add: list_all_iff)
  have IH: "(f, u) \<in> set (words_from (snd p) (built @ [fst p])) \<longleftrightarrow>
       (\<exists>w x. u = built @ fst p # w \<and> node_at (snd p) w = Some x \<and> is_word x \<and> f = freq x)"
    if "p \<in> set cs" for p
    using "1.IH" [of p f u] that wfc [OF that] by simp
  have L: "(f, u) \<in> set (words_from (Node cs wd fr) built) \<longleftrightarrow>
       (wd \<and> f = fr \<and> u = built) \<or>
       (\<exists>p \<in> set cs. (f, u) \<in> set (words_from (snd p) (built @ [fst p])))"
    by auto
  have R: "(\<exists>w x. u = built @ w \<and> node_at (Node cs wd fr) w = Some x \<and> is_word x \<and> f = freq x) \<longleftrightarrow>
       (wd \<and> f = fr \<and> u = built) \<or>
       (\<exists>p \<in> set cs. \<exists>w x. u = built @ fst p # w \<and> node_at (snd p) w = Some x \<and> is_word x \<and> f = freq x)"
    (is "?A \<longleftrightarrow> ?B \<or> ?C")
  proof
    assume ?A
    then obtain w x where a: "u = built @ w" "node_at (Node cs wd fr) w = Some x" "is_word x" "f = freq x"
      by blast
    show "?B \<or> ?C"
    proof (cases w)
      case Nil
      with a show ?thesis by auto
    next
      case (Cons c w')
      with a(2) node_at_Node_Cons [OF d, of wd fr c w' x] obtain nxt where
        "(c, nxt) \<in> set cs" "node_at nxt w' = Some x" by blast
      with a Cons have ?C by force
      then show ?thesis ..
    qed
  next
    assume "?B \<or> ?C"
    then show ?A
    proof
      assume ?B
      then have "u = built @ []" "node_at (Node cs wd fr) [] = Some (Node cs wd fr)"
        "is_word (Node cs wd fr)" "f = freq (Node cs wd fr)" by simp_all
      then show ?A by blast
    next
      assume ?C
      then obtain p w x where p: "p \<in> set cs" "u = built @ fst p # w" "node_at (snd p) w = Some x"
        "is_word x" "f = freq x" by blast
      from p(1) have "(fst p, snd p) \<in> set cs" by simp
      with p(3) node_at_Node_Cons [OF d, of wd fr "fst p" w x]
      have "node_at (Node cs wd fr) (fst p # w) = Some x" by blast
      with p show ?A by blast
    qed
  qed
  show ?case unfolding L R using IH by blast
qed

lemma words_from_prefix: "(f, u) \<in> set (words_from nd built) \<Longrightarrow> strict_prefix built u \<or> u = built"
proof (induction nd built arbitrary: f u rule: words_from.induct)
  case (1 cs wd fr built)
  from "1.prems" consider "u = built" | p where "p \<in> set cs"
    "(f, u) \<in> set (words_from (snd p) (built @ [fst p]))"
    by (auto split: if_splits)
  then show ?case
  proof cases
    case 1
    then show ?thesis by simp
  next
    case 2
    from "1.IH" [of p f u] 2 have "prefix (built @ [fst p]) u" by (auto simp: strict_prefix_def)
    then show ?thesis by (auto simp: prefix_def strict_prefix_def)
  qed
qed

lemma words_from_below: "(f, u) \<in> set (words_from nd (built @ [c])) \<Longrightarrow> prefix (built @ [c]) u"
  using words_from_prefix [of f u nd "built @ [c]"] by (auto simp: strict_prefix_def)

lemma distinct_concat_children:
  assumes "distinct (map fst xs)"
    and "\<And>p. p \<in> set xs \<Longrightarrow> distinct (map snd (g p))"
    and "\<And>p q. p \<in> set xs \<Longrightarrow> q \<in> snd ` set (g p) \<Longrightarrow> prefix (built @ [fst p]) q"
  shows "distinct (map snd (concat (map g xs)))"
  using assms
proof (induction xs)
  case Nil
  show ?case by simp
next
  case (Cons a xs)
  have "snd ` set (g a) \<inter> snd ` (\<Union>p \<in> set xs. set (g p)) = {}"
  proof (rule ccontr)
    assume "\<not> ?thesis"
    then obtain q p where q: "q \<in> snd ` set (g a)" "p \<in> set xs" "q \<in> snd ` set (g p)" by auto
    from Cons.prems(3) [of a q] q(1) have "prefix (built @ [fst a]) q" by simp
    moreover from Cons.prems(3) [of p q] q(2,3) have "prefix (built @ [fst p]) q" by simp
    ultimately have "fst a = fst p" by (auto simp: prefix_def append_eq_append_conv2 Cons_eq_append_conv)
    with Cons.prems(1) q(2) show False by force
  qed
  moreover have "distinct (map snd (concat (map g xs)))"
    by (rule Cons.IH) (use Cons.prems in auto)
  moreover have "distinct (map snd (g a))" by (rule Cons.prems(2)) simp
  ultimately show ?case by (auto simp: image_UN)
qed

lemma distinct_map_fst_insort:
  "distinct (map fst (insort_key fst x xs)) \<longleftrightarrow> fst x \<notin> fst ` set xs \<and> distinct (map fst xs)"
  by (induction xs) (auto simp: set_insort_key)

lemma distinct_map_fst_sort: "distinct (map fst (sort_key fst xs)) \<longleftrightarrow> distinct (map fst xs)"
  by (induction xs) (auto simp: distinct_map_fst_insort)

lemma words_from_distinct: "wf_node nd \<Longrightarrow> distinct (map snd (words_from nd built))"
proof (induction nd built rule: words_from.induct)
  case (1 cs wd fr built)
  from "1.prems" have d: "distinct (map fst cs)" and
    wfc: "\<And>p. p \<in> set cs \<Longrightarrow> wf_node (snd p)"
    by (simp_all add: list_all_iff)
  let ?g = "\<lambda>p. words_from (snd p) (built @ [fst p])"
  have kids: "distinct (map snd (concat (map ?g (sort_key fst cs))))"
  proof (rule distinct_concat_children [where built = built])
    show "distinct (map fst (sort_key fst cs))" using d by (simp add: distinct_map_fst_sort)
  next
    fix p assume "p \<in> set (sort_key fst cs)"
    then have "p \<in> set cs" by simp
    from "1.IH" [of p] this wfc [OF this] show "distinct (map snd (?g p))" by simp
  next
    fix p q assume "p \<in> set (sort_key fst cs)" "q \<in> snd ` set (?g p)"
    then show "prefix (built @ [fst p]) q" by (auto dest: words_from_below)
  qed
  have top: "built \<notin> snd ` set (concat (map ?g (sort_key fst cs)))"
  proof
    assume "built \<in> snd ` set (concat (map ?g (sort_key fst cs)))"
    then obtain p f where "(f, built) \<in> set (?g p)" by auto
    from words_from_below [OF this] show False by (simp add: prefix_def)
  qed
  show ?case using kids top by simp
qed

lemma set_offer_subset: "set (offer k x h) \<subseteq> insert x (set h)"
proof (cases h)
  case Nil
  then show ?thesis by (simp add: offer_def heappush_def heappushpop_def)
next
  case (Cons a h')
  then show ?thesis by (auto simp: offer_def heappush_def heappushpop_def set_insort_key)
qed

lemma length_offer: "length h \<le> nat k \<Longrightarrow> length (offer k x h) \<le> nat k"
  by (cases h) (auto simp: offer_def heappush_def heappushpop_def)

lemma set_fold_offer_subset: "set (fold (offer k) xs h) \<subseteq> set h \<union> set xs"
proof (induction xs arbitrary: h)
  case Nil
  show ?case by simp
next
  case (Cons x xs)
  from Cons.IH [of "offer k x h"] set_offer_subset [of k x h] show ?case by auto
qed

lemma length_fold_offer: "length h \<le> nat k \<Longrightarrow> length (fold (offer k) xs h) \<le> nat k"
  by (induction xs arbitrary: h) (simp_all add: length_offer)

lemma fold_offer_room:
  "int (length h) + int (length xs) \<le> k \<Longrightarrow>
     set (fold (offer k) xs h) = set h \<union> set xs \<and>
     length (fold (offer k) xs h) = length h + length xs"
proof (induction xs arbitrary: h)
  case Nil
  show ?case by simp
next
  case (Cons x xs)
  from Cons.prems have o: "offer k x h = insort x h" by (simp add: offer_def heappush_def)
  from Cons.prems have "int (length (insort x h)) + int (length xs) \<le> k" by simp
  from Cons.IH [OF this] show ?case by (auto simp: o set_insort_key)
qed

lemma complete_node_at:
  "complete t p k =
     (case node_at (root t) p of
        None \<Rightarrow> []
      | Some nd \<Rightarrow>
          map snd (sort_key (\<lambda>x. (- fst x, snd x)) (fold (offer k) (words_from nd p) [])))"
proof (cases "trace t p")
  case None
  then show ?thesis using trace_node_at [of t p] by (simp add: complete_def)
next
  case (Some a)
  then show ?thesis using trace_node_at [of t p, symmetric]
    by (cases a) (simp add: complete_def dfs_fold)
qed

lemma stored_words:
  assumes "wf_trie t"
  shows "{w. prefix p w \<and> contains t w} =
     (case node_at (root t) p of None \<Rightarrow> {} | Some nd \<Rightarrow> snd ` set (words_from nd p))"
proof (cases "node_at (root t) p")
  case None
  then have "\<not> contains t (p @ w')" for w'
    by (simp add: contains_node_at node_at_append)
  then have "{w. prefix p w \<and> contains t w} = {}" by (auto simp: prefix_def)
  with None show ?thesis by simp
next
  case (Some nd)
  from assms Some have wf: "wf_node nd" by (auto simp: wf_trie_def intro: wf_node_at)
  have "prefix p w \<and> contains t w \<longleftrightarrow> w \<in> snd ` set (words_from nd p)" for w
  proof
    assume a: "prefix p w \<and> contains t w"
    then obtain w' where w': "w = p @ w'" by (auto simp: prefix_def)
    with a Some obtain x where "node_at nd w' = Some x" "is_word x"
      by (auto simp: contains_node_at node_at_append split: option.splits)
    with w' words_from_iff [OF wf, of "freq x" w p] have "(freq x, w) \<in> set (words_from nd p)"
      by blast
    then show "w \<in> snd ` set (words_from nd p)" by force
  next
    assume "w \<in> snd ` set (words_from nd p)"
    then obtain f where "(f, w) \<in> set (words_from nd p)" by auto
    with words_from_iff [OF wf, of f w p] obtain w' x where
      "w = p @ w'" "node_at nd w' = Some x" "is_word x" by blast
    with Some show "prefix p w \<and> contains t w"
      by (simp add: contains_node_at node_at_append)
  qed
  with Some show ?thesis by auto
qed

lemma stored_weight:
  assumes "wf_trie t" and "node_at (root t) p = Some nd" and "(f, w) \<in> set (words_from nd p)"
  shows "weight t w = Some f"
proof -
  from assms(1,2) have wf: "wf_node nd" by (auto simp: wf_trie_def intro: wf_node_at)
  from assms(3) words_from_iff [OF wf, of f w p] obtain w' x where
    "w = p @ w'" "node_at nd w' = Some x" "f = freq x" by blast
  with assms(2) show ?thesis by (simp add: weight_node_at node_at_append)
qed

lemma distinct_map_by_card:
  assumes "set ys = set xs" and "length ys = length xs" and "distinct (map f xs)"
  shows "distinct (map f ys)"
proof -
  have "card (set (map f ys)) = card (set (map f xs))" using assms(1) by simp
  also have "\<dots> = length (map f xs)" using assms(3) by (rule distinct_card)
  also have "\<dots> = length (map f ys)" using assms(2) by simp
  finally show ?thesis by (rule card_distinct)
qed

lemma sorted_key_precedes:
  assumes "sorted (map (\<lambda>x. (- fst x, snd x)) res)"
    and "distinct (map snd res)"
    and "\<And>f w. (f, w) \<in> set res \<Longrightarrow> weight t w = Some f"
  shows "sorted_wrt (precedes t) (map snd res)"
  using assms
proof (induction res)
  case Nil
  show ?case by simp
next
  case (Cons a res)
  have "precedes t (snd a) (snd y)" if y: "y \<in> set res" for y
  proof -
    from Cons.prems(1) y have le: "(- fst a, snd a) \<le> (- fst y, snd y)" by auto
    from Cons.prems(2) y have ne: "snd a \<noteq> snd y" by auto
    from Cons.prems(3) [of "fst a" "snd a"] have wa: "weight t (snd a) = Some (fst a)" by simp
    from Cons.prems(3) [of "fst y" "snd y"] y have wy: "weight t (snd y) = Some (fst y)" by simp
    from le ne have "fst y < fst a \<or> (fst a = fst y \<and> snd a < snd y)"
      by (auto simp: less_eq_prod_def)
    with wa wy show ?thesis by (simp add: precedes_def)
  qed
  moreover have "sorted_wrt (precedes t) (map snd res)"
    by (rule Cons.IH) (use Cons.prems in auto)
  ultimately show ?case by auto
qed

text \<open>
  Claim C8, amended. For every index, prefix \<open>p\<close> and integer \<open>k\<close>, every word
  returned by \<^verbatim>\<open>complete(p, k)\<close> has \<open>p\<close> as a prefix and is present
  (\<^verbatim>\<open>contains\<close> is true on the same index), and the returned sequence has at
  most \<open>max(k, 0)\<close> entries.
\<close>

theorem complete_sound:
  "wf_trie t \<Longrightarrow>
     (\<forall>w \<in> set (complete t p k). prefix p w \<and> contains t w) \<and>
     length (complete t p k) \<le> nat k"
proof -
  assume wf: "wf_trie t"
  show ?thesis
  proof (cases "node_at (root t) p")
    case None
    then show ?thesis by (simp add: complete_node_at)
  next
    case (Some nd)
    let ?heap = "fold (offer k) (words_from nd p) []"
    have c: "complete t p k = map snd (sort_key (\<lambda>x. (- fst x, snd x)) ?heap)"
      using Some by (simp add: complete_node_at)
    have "set (complete t p k) \<subseteq> snd ` set (words_from nd p)"
      using set_fold_offer_subset [of k "words_from nd p" "[]"] by (auto simp: c)
    also have "\<dots> = {w. prefix p w \<and> contains t w}"
      using stored_words [OF wf, of p] Some by simp
    finally have a: "\<forall>w \<in> set (complete t p k). prefix p w \<and> contains t w" by blast
    have "length ?heap \<le> nat k" by (rule length_fold_offer) simp
    then have b: "length (complete t p k) \<le> nat k" by (simp add: c)
    from a b show ?thesis ..
  qed
qed

theorem complete_sound_witness:
  "wf_trie (run [Insert ''cat'' 5, Insert ''car'' 5, Insert ''cart'' 3]) \<and>
   complete (run [Insert ''cat'' 5, Insert ''car'' 5, Insert ''cart'' 3]) ''ca'' 2 = [''car'', ''cat''] \<and>
   prefix ''ca'' ''car'' \<and>
   contains (run [Insert ''cat'' 5, Insert ''car'' 5, Insert ''cart'' 3]) ''car'' \<and>
   prefix ''ca'' ''cat'' \<and>
   contains (run [Insert ''cat'' 5, Insert ''car'' 5, Insert ''cart'' 3]) ''cat'' \<and>
   length (complete (run [Insert ''cat'' 5, Insert ''car'' 5, Insert ''cart'' 3]) ''ca'' 2) \<le> nat 2"
proof -
  have w: "wf_trie (run [Insert ''cat'' 5, Insert ''car'' 5, Insert ''cart'' 3])" by code_simp
  have c: "complete (run [Insert ''cat'' 5, Insert ''car'' 5, Insert ''cart'' 3]) ''ca'' 2
             = [''car'', ''cat'']" by code_simp
  from complete_sound [OF w, of "''ca''" 2] w c show ?thesis by simp
qed

text \<open>
  Claim C8 as stated bounds the length by \<open>k\<close> for every integer \<open>k\<close>. For a
  negative \<open>k\<close> the result is empty, and its length \<open>0\<close> is not at most \<open>k\<close>.
\<close>

theorem complete_negative_k_counterexample:
  "\<not> int (length (complete (Trie :: char trie) [] (- 1))) \<le> - 1"
  by code_simp

text \<open>
  Claim C7. If the number of stored words with prefix \<open>p\<close> is at most \<open>k\<close>, then
  \<^verbatim>\<open>complete(p, k)\<close> returns all of them, each once, ordered so that a word of
  higher weight comes before any word of lower weight and, among equal weights,
  the lexicographically smaller word comes first.
\<close>

theorem complete_all:
  "wf_trie t \<Longrightarrow> int (card {w. prefix p w \<and> contains t w}) \<le> k \<Longrightarrow>
     set (complete t p k) = {w. prefix p w \<and> contains t w} \<and>
     distinct (complete t p k) \<and>
     sorted_wrt (precedes t) (complete t p k)"
proof -
  assume wf: "wf_trie t" and few: "int (card {w. prefix p w \<and> contains t w}) \<le> k"
  show ?thesis
  proof (cases "node_at (root t) p")
    case None
    with stored_words [OF wf, of p] show ?thesis by (simp add: complete_node_at)
  next
    case (Some nd)
    let ?xs = "words_from nd p"
    let ?heap = "fold (offer k) ?xs []"
    let ?res = "sort_key (\<lambda>x. (- fst x, snd x)) ?heap"
    from wf Some have wfn: "wf_node nd" by (auto simp: wf_trie_def intro: wf_node_at)
    have d: "distinct (map snd ?xs)" by (rule words_from_distinct [OF wfn])
    have S: "{w. prefix p w \<and> contains t w} = snd ` set ?xs"
      using stored_words [OF wf, of p] Some by simp
    have "card (snd ` set ?xs) = length ?xs" using distinct_card [OF d] by simp
    with few S have "int (length ([] :: 'a item list)) + int (length ?xs) \<le> k" by simp
    from fold_offer_room [OF this] have h: "set ?heap = set ?xs" "length ?heap = length ?xs"
      by simp_all
    then have r: "set ?res = set ?xs" "length ?res = length ?xs" by simp_all
    have c: "complete t p k = map snd ?res" using Some by (simp add: complete_node_at)
    have dr: "distinct (map snd ?res)" by (rule distinct_map_by_card [OF r d])
    have "sorted (map (\<lambda>x. (- fst x, snd x)) ?res)" by (rule sorted_sort_key)
    then have "sorted_wrt (precedes t) (map snd ?res)"
    proof (rule sorted_key_precedes [OF _ dr])
      fix f w assume "(f, w) \<in> set ?res"
      with r(1) have "(f, w) \<in> set ?xs" by simp
      then show "weight t w = Some f" by (rule stored_weight [OF wf Some])
    qed
    moreover have "set (map snd ?res) = {w. prefix p w \<and> contains t w}"
      using r(1) S by simp
    ultimately show ?thesis using dr by (simp only: c) 
  qed
qed

theorem complete_all_witness:
  "wf_trie (run [Insert ''cat'' 5, Insert ''car'' 5, Insert ''cart'' 3]) \<and>
   int (card {w. prefix ''ca'' w \<and>
                 contains (run [Insert ''cat'' 5, Insert ''car'' 5, Insert ''cart'' 3]) w}) \<le> 4 \<and>
   complete (run [Insert ''cat'' 5, Insert ''car'' 5, Insert ''cart'' 3]) ''ca'' 4
     = [''car'', ''cat'', ''cart''] \<and>
   {w. prefix ''ca'' w \<and> contains (run [Insert ''cat'' 5, Insert ''car'' 5, Insert ''cart'' 3]) w}
     = {''car'', ''cat'', ''cart''} \<and>
   sorted_wrt (precedes (run [Insert ''cat'' 5, Insert ''car'' 5, Insert ''cart'' 3]))
     [''car'', ''cat'', ''cart'']"
proof -
  let ?t = "run [Insert ''cat'' 5, Insert ''car'' 5, Insert ''cart'' 3]"
  have w: "wf_trie ?t" by code_simp
  have n: "node_at (root ?t) ''ca''
     = Some (Node [(CHR ''t'', Node [] True 5),
                   (CHR ''r'', Node [(CHR ''t'', Node [] True 3)] True 5)] False 0)"
    by code_simp
  have x: "snd ` set (words_from (Node [(CHR ''t'', Node [] True 5),
                   (CHR ''r'', Node [(CHR ''t'', Node [] True 3)] True 5)] False 0) ''ca'')
     = {''car'', ''cat'', ''cart''}"
    by code_simp
  have s: "{w. prefix ''ca'' w \<and> contains ?t w} = {''car'', ''cat'', ''cart''}"
    using stored_words [OF w, of "''ca''"] by (simp only: n option.case x)
  have k: "int (card {w. prefix ''ca'' w \<and> contains ?t w}) \<le> 4"
    by (simp only: s) simp
  have c: "complete ?t ''ca'' 4 = [''car'', ''cat'', ''cart'']" by code_simp
  from complete_all [OF w k] w k c s show ?thesis by (simp only:)
qed

text \<open>
  Claim C9. \<^verbatim>\<open>complete(p, k)\<close> returns the empty sequence when no node matches
  the prefix, when \<open>k\<close> is zero or negative, and when no stored word has the
  prefix. It returns a value in each case: the source has no \<^verbatim>\<open>raise\<close> on this
  path, \<^verbatim>\<open>heappushpop\<close> is defined on an empty heap, and so \<open>complete\<close> is a
  total function without an error result.
\<close>

theorem complete_empty:
  "(trace t p = None \<longrightarrow> complete t p k = []) \<and>
   (k \<le> 0 \<longrightarrow> complete t p k = []) \<and>
   (wf_trie t \<and> (\<forall>w. prefix p w \<longrightarrow> \<not> contains t w) \<longrightarrow> complete t p k = [])"
proof -
  have a: "complete t p k = []" if "trace t p = None"
    using that by (simp add: complete_def)
  have b: "complete t p k = []" if "k \<le> 0"
  proof (cases "node_at (root t) p")
    case None
    then show ?thesis by (simp add: complete_node_at)
  next
    case (Some nd)
    have "length (fold (offer k) (words_from nd p) []) \<le> nat k"
      by (rule length_fold_offer) simp
    with that have "fold (offer k) (words_from nd p) [] = []" by simp
    with Some show ?thesis by (simp add: complete_node_at)
  qed
  have c: "complete t p k = []" if wf: "wf_trie t" and no: "\<forall>w. prefix p w \<longrightarrow> \<not> contains t w"
  proof (cases "node_at (root t) p")
    case None
    then show ?thesis by (simp add: complete_node_at)
  next
    case (Some nd)
    from no have "{w. prefix p w \<and> contains t w} = {}" by blast
    with stored_words [OF wf, of p] Some have "words_from nd p = []" by simp
    with Some show ?thesis by (simp add: complete_node_at)
  qed
  from a b c show ?thesis by blast
qed

theorem complete_empty_witness:
  "trace (run [Insert ''cat'' 5, Insert ''car'' 5]) ''z'' = None \<and>
   complete (run [Insert ''cat'' 5, Insert ''car'' 5]) ''z'' 5 = [] \<and>
   complete (run [Insert ''cat'' 5, Insert ''car'' 5]) ''ca'' 0 = [] \<and>
   wf_trie (Trie :: char trie) \<and> {w. prefix [] w \<and> contains (Trie :: char trie) w} = {} \<and>
   complete (Trie :: char trie) [] 3 = []"
proof -
  have a: "trace (run [Insert ''cat'' 5, Insert ''car'' 5]) ''z'' = None" by code_simp
  have w: "wf_trie (Trie :: char trie)" by code_simp
  have n: "\<not> contains (Trie :: char trie) w" for w
    by (cases w) (simp_all add: contains_def trace_def Trie_def TrieNode_def)
  from complete_empty [of "run [Insert ''cat'' 5, Insert ''car'' 5]" "''z''" 5]
    complete_empty [of "run [Insert ''cat'' 5, Insert ''car'' 5]" "''ca''" 0]
    complete_empty [of "Trie :: char trie" "[]" 3] a w n
  show ?thesis by simp
qed

text \<open>
  Claim C1 says that the bounded candidate set is ranked by descending weight
  and then ascending word, so that \<^verbatim>\<open>complete(p, k)\<close> returns the \<open>k\<close> highest
  ranked words. The heap of the source is a min-heap of \<^verbatim>\<open>(freq, word)\<close>
  tuples: on equal weights its smallest member is the lexicographically smaller
  word, and that is the one evicted. After \<^verbatim>\<open>insert("a", 1.0)\<close>,
  \<^verbatim>\<open>insert("b", 1.0)\<close> the call \<^verbatim>\<open>complete("", 1)\<close> returns \<^verbatim>\<open>["b"]\<close>, although
  \<^verbatim>\<open>"a"\<close> is stored with the same weight and precedes \<^verbatim>\<open>"b"\<close> in the ranking.
\<close>

theorem complete_tie_keeps_larger_word:
  "complete (run [Insert ''a'' 1, Insert ''b'' 1]) [] 1 = [''b''] \<and>
   contains (run [Insert ''a'' 1, Insert ''b'' 1]) ''a'' \<and>
   precedes (run [Insert ''a'' 1, Insert ''b'' 1]) ''a'' ''b''"
  by code_simp

section \<open>Item listing\<close>

lemma gather_append: "gather nd pfx pairs = pairs @ gather nd pfx []"
proof (induction nd pfx pairs rule: gather.induct)
  case (1 cs w fr pfx pairs)
  have kids: "fold (\<lambda>p ps. gather (snd p) (pfx @ [fst p]) ps) xs init
      = init @ concat (map (\<lambda>p. gather (snd p) (pfx @ [fst p]) []) xs)"
    if "set xs \<subseteq> set cs" for xs init
    using that
  proof (induction xs arbitrary: init)
    case Nil
    show ?case by simp
  next
    case (Cons a xs)
    from Cons.prems have "a \<in> set cs" by simp
    from "1.IH" [OF this, of init] have
      "gather (snd a) (pfx @ [fst a]) init = init @ gather (snd a) (pfx @ [fst a]) []" .
    with Cons.IH [of "init @ gather (snd a) (pfx @ [fst a]) []"] Cons.prems show ?case by simp
  qed
  show ?case by (simp add: kids)
qed

lemma gather_Node:
  "gather (Node cs w fr) pfx [] =
     (if w then [(pfx, fr)] else []) @ concat (map (\<lambda>p. gather (snd p) (pfx @ [fst p]) []) cs)"
proof -
  have "fold (\<lambda>p ps. gather (snd p) (pfx @ [fst p]) ps) xs init
      = init @ concat (map (\<lambda>p. gather (snd p) (pfx @ [fst p]) []) xs)" for xs init
  proof (induction xs arbitrary: init)
    case Nil
    show ?case by simp
  next
    case (Cons a xs)
    show ?case using Cons.IH gather_append [of "snd a" "pfx @ [fst a]" init] by simp
  qed
  then show ?thesis by simp
qed

lemma sum_list_insort_key:
  "sum_list (map h (insort_key f x xs)) = h x + sum_list (map (h :: 'b \<Rightarrow> nat) xs)"
  by (induction xs) auto

lemma sum_list_sort_key:
  "sum_list (map h (sort_key f xs)) = sum_list (map (h :: 'b \<Rightarrow> nat) xs)"
  by (induction xs) (auto simp: sum_list_insort_key)

lemma gather_words:
  "set (gather nd pfx []) = (\<lambda>x. (snd x, fst x)) ` set (words_from nd pfx) \<and>
   length (gather nd pfx []) = length (words_from nd pfx)"
proof (induction nd pfx rule: words_from.induct)
  case (1 cs w fr built)
  have IH: "set (gather (snd p) (built @ [fst p]) [])
              = (\<lambda>x. (snd x, fst x)) ` set (words_from (snd p) (built @ [fst p]))"
    "length (gather (snd p) (built @ [fst p]) []) = length (words_from (snd p) (built @ [fst p]))"
    if "p \<in> set cs" for p
    using "1.IH" [of p] that by simp_all
  have s: "set (concat (map (\<lambda>p. gather (snd p) (built @ [fst p]) []) cs))
      = (\<lambda>x. (snd x, fst x)) `
          set (concat (map (\<lambda>p. words_from (snd p) (built @ [fst p])) (sort_key fst cs)))"
    using IH(1) by (auto simp: image_UN)
  have "length (concat (map (\<lambda>p. gather (snd p) (built @ [fst p]) []) cs))
      = sum_list (map (\<lambda>p. length (words_from (snd p) (built @ [fst p]))) cs)"
    using IH(2) by (simp add: length_concat o_def cong: map_cong)
  also have "\<dots> = length (concat (map (\<lambda>p. words_from (snd p) (built @ [fst p])) (sort_key fst cs)))"
    by (simp add: length_concat o_def sum_list_sort_key)
  finally show ?case using s by (simp add: gather_Node image_Un del: gather.simps)
qed

lemma gather_preorder: "gather nd pfx [] = preorder nd pfx"
proof (induction nd pfx rule: preorder.induct)
  case (1 cs w fr pfx)
  have e: "map (\<lambda>p. gather (snd p) (pfx @ [fst p]) []) cs
          = map (\<lambda>p. preorder (snd p) (pfx @ [fst p])) cs"
    using "1.IH" by simp
  show ?case by (simp only: gather_Node preorder.simps e)
qed

text \<open>
  Claim C6, amended. For every index, \<^verbatim>\<open>items()\<close> returns exactly one
  \<^verbatim>\<open>(word, weight)\<close> pair for every terminal node: no word occurs twice, and the
  pairs are exactly the stored words with their weights. The order is the
  pre-order of the tree with the children of each node in dict insertion order.
\<close>

theorem items_stored:
  fixes t :: "'a::linorder trie"
  shows "wf_trie t \<Longrightarrow>
     distinct (map fst (items t)) \<and>
     set (items t) = {(w, f). contains t w \<and> weight t w = Some f} \<and>
     items t = preorder (root t) []"
proof -
  assume wf: "wf_trie t"
  then have wfn: "wf_node (root t)" by (simp add: wf_trie_def)
  let ?xs = "words_from (root t) []"
  from gather_words [of "root t" "[]"] have
    g: "set (items t) = (\<lambda>x. (snd x, fst x)) ` set ?xs" "length (items t) = length ?xs"
    by (simp_all add: items_def)
  have d: "distinct (map snd ?xs)" by (rule words_from_distinct [OF wfn])
  have "card (set (map fst (items t))) = card (set (map snd ?xs))"
    using g(1) by (simp add: image_image)
  also have "\<dots> = length (map snd ?xs)" by (rule distinct_card [OF d])
  also have "\<dots> = length (map fst (items t))" using g(2) by simp
  finally have a: "distinct (map fst (items t))" by (rule card_distinct)
  have "(w, f) \<in> set (items t) \<longleftrightarrow> contains t w \<and> weight t w = Some f" for w f
  proof -
    have "(w, f) \<in> set (items t) \<longleftrightarrow> (f, w) \<in> set ?xs" using g(1) by force
    also have "\<dots> \<longleftrightarrow> (\<exists>x. node_at (root t) w = Some x \<and> is_word x \<and> f = freq x)"
      using words_from_iff [OF wfn, of f w "[]"] by simp
    also have "\<dots> \<longleftrightarrow> contains t w \<and> weight t w = Some f"
      by (auto simp: contains_node_at weight_node_at split: option.splits)
    finally show ?thesis .
  qed
  then have b: "set (items t) = {(w, f). contains t w \<and> weight t w = Some f}" by auto
  have c: "items t = preorder (root t) []" by (simp add: items_def gather_preorder)
  from a b c show ?thesis by blast
qed

theorem items_stored_witness:
  "wf_trie (run [Insert ''b'' 1, Insert ''a'' 2]) \<and>
   items (run [Insert ''b'' 1, Insert ''a'' 2]) = [(''b'', 1), (''a'', 2)] \<and>
   distinct (map fst [(''b'', 1 :: real), (''a'', 2)]) \<and>
   {(w, f). contains (run [Insert ''b'' 1, Insert ''a'' 2]) w \<and>
            weight (run [Insert ''b'' 1, Insert ''a'' 2]) w = Some f}
     = {(''b'', 1), (''a'', 2)} \<and>
   preorder (root (run [Insert ''b'' 1, Insert ''a'' 2])) [] = [(''b'', 1), (''a'', 2)]"
proof -
  have w: "wf_trie (run [Insert ''b'' 1, Insert ''a'' 2])" by code_simp
  have i: "items (run [Insert ''b'' 1, Insert ''a'' 2]) = [(''b'', 1), (''a'', 2)]" by code_simp
  note th = items_stored [OF w]
  have d: "distinct (map fst [(''b'', 1 :: real), (''a'', 2)])" by simp
  have s: "{(w, f). contains (run [Insert ''b'' 1, Insert ''a'' 2]) w \<and>
            weight (run [Insert ''b'' 1, Insert ''a'' 2]) w = Some f}
     = {(''b'', 1), (''a'', 2)}"
    using th [THEN conjunct2, THEN conjunct1, symmetric] by (simp only: i) simp
  have p: "preorder (root (run [Insert ''b'' 1, Insert ''a'' 2])) [] = [(''b'', 1), (''a'', 2)]"
    using th [THEN conjunct2, THEN conjunct2, symmetric] by (simp only: i)
  from w i d s p show ?thesis by (intro conjI)
qed

text \<open>
  Claim C6 as stated says that the result is sorted by word, independent of the
  insertion history. \<^verbatim>\<open>gather\<close> iterates \<^verbatim>\<open>node.children.items()\<close> without
  sorting: the same two words come out in the order they were inserted.
\<close>

theorem items_unsorted_counterexample:
  "items (run [Insert ''b'' 1, Insert ''a'' 2]) = [(''b'', 1), (''a'', 2)] \<and>
   \<not> sorted (map fst (items (run [Insert ''b'' 1, Insert ''a'' 2]))) \<and>
   items (run [Insert ''a'' 2, Insert ''b'' 1]) = [(''a'', 2), (''b'', 1)]"
  by code_simp

end
